theory Spec2Isabelle
  imports Main "HOL-Library.Word"
begin

section \<open>JavaScript strings and errors\<close>

text \<open>
  A JavaScript string is a sequence of UTF-16 code units. \<open>js\<close> writes an ASCII literal
  as such a sequence. A call that throws ends in \<open>Throw\<close> with the state it left behind.
\<close>

type_synonym jsstring = "16 word list"

definition js :: "string \<Rightarrow> jsstring" where
  "js s = map (\<lambda>c. of_nat (of_char c)) s"

datatype js_error = TypeError | URIError | ReferenceError

datatype 's completion = Normal 's | Throw js_error 's

definition state_of :: "'s completion \<Rightarrow> 's" where
  "state_of c = (case c of Normal s \<Rightarrow> s | Throw e s \<Rightarrow> s)"

definition throws :: "'s completion \<Rightarrow> bool" where
  "throws c = (case c of Normal s \<Rightarrow> False | Throw e s \<Rightarrow> True)"

section \<open>Virtual clock, timers and tasks\<close>

text \<open>
  The scripts of the site are driven by the browser's event loop. Time is a virtual
  clock in whole milliseconds, as in a fake-timer test harness: a timer runs at the
  instant it is due, and timers that are due at the same instant run in the order they
  were created. The closures handed to \<open>setTimeout\<close> are defunctionalised: each model
  below has a datatype of callbacks, and an interpreter that runs one of them.

  The platform reads the delay of \<open>setTimeout\<close> as a signed 32-bit integer: the number
  is taken modulo \<open>2^32\<close>, a result from \<open>2^31\<close> up stands for a negative number, and a
  negative delay counts as 0.
\<close>

definition timer_delay :: "nat \<Rightarrow> nat" where
  "timer_delay delay = (let m = delay mod 2 ^ 32 in if m < 2 ^ 31 then m else 0)"

record 'cb timer =
  handle :: nat
  due :: nat
  callback :: 'cb

record 'cb timers =
  next_handle :: nat
  pending :: "'cb timer list"

definition setTimeout :: "'cb \<Rightarrow> nat \<Rightarrow> nat \<Rightarrow> 'cb timers \<Rightarrow> nat \<times> 'cb timers" where
  "setTimeout cb delay now q =
     (next_handle q,
      q\<lparr>next_handle := Suc (next_handle q),
        pending := pending q @
          [\<lparr>handle = next_handle q, due = now + timer_delay delay, callback = cb\<rparr>]\<rparr>)"


fun earliest :: "'cb timer list \<Rightarrow> 'cb timer option" where
  "earliest [] = None"
| "earliest (x # xs) =
     (case earliest xs of None \<Rightarrow> Some x
      | Some y \<Rightarrow> if due y < due x then Some y else Some x)"

definition next_due :: "nat \<Rightarrow> 'cb timers \<Rightarrow> 'cb timer option" where
  "next_due t q =
     (case earliest (pending q) of None \<Rightarrow> None
      | Some x \<Rightarrow> if due x \<le> t then Some x else None)"

definition pop_timer :: "'cb timer \<Rightarrow> 'cb timers \<Rightarrow> 'cb timers" where
  "pop_timer x q = q\<lparr>pending := remove1 x (pending q)\<rparr>"

text \<open>
  \<open>run_timers exec t\<close> runs every timer due at or before \<open>t\<close>, earliest first, each
  callback seeing the queue without its own timer. A callback may set new timers, so
  the loop need not end; not returning is \<open>None\<close>.
\<close>

partial_function (option) run_timers ::
  "('cb timer \<Rightarrow> 's \<times> 'cb timers \<Rightarrow> 's \<times> 'cb timers) \<Rightarrow> nat \<Rightarrow> 's \<times> 'cb timers
     \<Rightarrow> ('s \<times> 'cb timers) option" where
  "run_timers exec t st =
     (case next_due t (snd st) of None \<Rightarrow> Some st
      | Some x \<Rightarrow>
          run_timers exec t (exec x (fst st, pop_timer x (snd st))))"

declare run_timers.simps [code]

text \<open>
  A timer callback runs as a task of its own, so no timer runs between two calls that
  script makes in one task. A trace is a list of calls. \<open>NewTask t ties ev\<close> is a call
  that opens a task at time \<open>t\<close>: the timers due before \<open>t\<close> have run by then, and those
  due exactly at \<open>t\<close> have run when \<open>ties\<close> is true and have not when it is false (the
  event loop may take either order). \<open>SameTask ev\<close> is a further call in the task of the
  call before it, at the same time, with no timer run in between.
\<close>

datatype 'ev call = NewTask nat bool 'ev | SameTask 'ev

definition reach ::
  "('cb timer \<Rightarrow> 's \<times> 'cb timers \<Rightarrow> 's \<times> 'cb timers) \<Rightarrow> nat \<Rightarrow> bool \<Rightarrow> 's \<times> 'cb timers
     \<Rightarrow> ('s \<times> 'cb timers) option" where
  "reach exec t ties st =
     (if ties then run_timers exec t st
      else if t = 0 then Some st
      else run_timers exec (t - 1) st)"

fun run_calls ::
  "('cb timer \<Rightarrow> 's \<times> 'cb timers \<Rightarrow> 's \<times> 'cb timers)
     \<Rightarrow> (nat \<Rightarrow> 'ev \<Rightarrow> 's \<times> 'cb timers \<Rightarrow> 's \<times> 'cb timers)
     \<Rightarrow> nat \<Rightarrow> 'ev call list \<Rightarrow> 's \<times> 'cb timers \<Rightarrow> ('s \<times> 'cb timers) option" where
  "run_calls exec handler now [] st = Some st"
| "run_calls exec handler now (NewTask t ties ev # rest) st =
     (case reach exec t ties st of None \<Rightarrow> None
      | Some st' \<Rightarrow> run_calls exec handler t rest (handler t ev st'))"
| "run_calls exec handler now (SameTask ev # rest) st =
     run_calls exec handler now rest (handler now ev st)"

text \<open>The calls of a trace with the time of each, and the times at which its tasks open.\<close>

fun timed :: "nat \<Rightarrow> 'ev call list \<Rightarrow> (nat \<times> 'ev) list" where
  "timed now [] = []"
| "timed now (NewTask t ties ev # rest) = (t, ev) # timed t rest"
| "timed now (SameTask ev # rest) = (now, ev) # timed now rest"

fun task_times :: "'ev call list \<Rightarrow> nat list" where
  "task_times [] = []"
| "task_times (NewTask t ties ev # rest) = t # task_times rest"
| "task_times (SameTask ev # rest) = task_times rest"


section \<open>Utils.debounce (src/js/utils.js)\<close>











section \<open>Utils.throttle (src/js/utils.js)\<close>
















section \<open>Utils.formatPhone (src/js/utils.js)\<close>

text \<open>\<open>\D\<close> matches every code unit that is not one of \<open>0\<close> to \<open>9\<close>.\<close>

definition non_digit :: "16 word \<Rightarrow> bool" where
  "non_digit c = (\<not> (0x30 \<le> c \<and> c \<le> 0x39))"

text \<open>\<open>s.slice(a, b)\<close> for indices that are not negative; \<open>b\<close> absent means the end.\<close>

definition slice :: "nat \<Rightarrow> nat option \<Rightarrow> 'a list \<Rightarrow> 'a list" where
  "slice a b s = (case b of None \<Rightarrow> drop a s | Some e \<Rightarrow> take (e - a) (drop a s))"

text \<open>\<open>phone.replace(/\D/g, '')\<close>: every non-digit is deleted.\<close>

definition strip_non_digits :: "jsstring \<Rightarrow> jsstring" where
  "strip_non_digits s = filter (\<lambda>c. \<not> non_digit c) s"

definition formatPhone :: "jsstring \<Rightarrow> jsstring" where
  "formatPhone phone =
     (let digits = strip_non_digits phone
      in if length digits = 12
         then js ''+'' @ slice 0 (Some 3) digits @ js '' '' @ slice 3 (Some 6) digits @ js '' '' @
              slice 6 (Some 9) digits @ js '' '' @ slice 9 None digits
         else phone)"

section \<open>CONFIG and CONFIG.getWhatsAppLink (src/js/config.js)\<close>

record business =
  name :: jsstring
  tagline :: jsstring
  phone :: jsstring
  whatsapp :: jsstring
  email :: jsstring
  address :: jsstring

record breakpoints =
  mobile :: nat
  tablet :: nat
  desktop :: nat

record config =
  business :: business
  breakpoints :: breakpoints
  scrollReveal_enabled :: bool
  lazyLoadImages :: bool
  debounceDelay :: nat

definition CONFIG :: config where
  "CONFIG =
     \<lparr>business =
        \<lparr>name = js ''KELAH Agrovet'',
         tagline = js ''Your Trusted Partner in Animal Health & Farm Success'',
         phone = js ''+254722784947'',
         whatsapp = js ''254722784947'',
         email = js ''info@kelah-agrovet.co.ke'',
         address = js ''Main Street, Your Town, Kenya''\<rparr>,
      breakpoints = \<lparr>mobile = 768, tablet = 1024, desktop = 1440\<rparr>,
      scrollReveal_enabled = True,
      lazyLoadImages = True,
      debounceDelay = 150\<rparr>"

text \<open>
  \<open>encodeURIComponent\<close> (ECMAScript \<open>Encode\<close> with the unreserved set): letters, digits
  and \<open>- _ . ! ~ * ' ( )\<close> are kept; every other code point is written as the
  percent-escaped octets of its UTF-8 encoding; a surrogate without its partner throws
  \<open>URIError\<close>.
\<close>

definition uri_unreserved :: "16 word \<Rightarrow> bool" where
  "uri_unreserved c =
     ((0x41 \<le> c \<and> c \<le> 0x5A) \<or> (0x61 \<le> c \<and> c \<le> 0x7A) \<or> (0x30 \<le> c \<and> c \<le> 0x39) \<or>
      c \<in> set (js ''-_.!~*'()''))"

definition is_lead :: "16 word \<Rightarrow> bool" where
  "is_lead c = (0xD800 \<le> c \<and> c \<le> 0xDBFF)"

definition is_trail :: "16 word \<Rightarrow> bool" where
  "is_trail c = (0xDC00 \<le> c \<and> c \<le> 0xDFFF)"

definition pair_code_point :: "16 word \<Rightarrow> 16 word \<Rightarrow> nat" where
  "pair_code_point c d = (unat c - 0xD800) * 0x400 + (unat d - 0xDC00) + 0x10000"

definition utf8 :: "nat \<Rightarrow> nat list" where
  "utf8 cp =
     (if cp < 0x80 then [cp]
      else if cp < 0x800 then [0xC0 + cp div 0x40, 0x80 + cp mod 0x40]
      else if cp < 0x10000 then
        [0xE0 + cp div 0x1000, 0x80 + cp div 0x40 mod 0x40, 0x80 + cp mod 0x40]
      else
        [0xF0 + cp div 0x40000, 0x80 + cp div 0x1000 mod 0x40, 0x80 + cp div 0x40 mod 0x40,
         0x80 + cp mod 0x40])"

definition hex_digit :: "nat \<Rightarrow> 16 word" where
  "hex_digit n = js ''0123456789ABCDEF'' ! (n mod 16)"

definition percent_octets :: "nat list \<Rightarrow> jsstring" where
  "percent_octets bs = concat (map (\<lambda>b. [0x25, hex_digit (b div 16), hex_digit b]) bs)"

definition append_ok :: "jsstring \<Rightarrow> js_error + jsstring \<Rightarrow> js_error + jsstring" where
  "append_ok xs r = (case r of Inl e \<Rightarrow> Inl e | Inr ys \<Rightarrow> Inr (xs @ ys))"

fun encodeURIComponent :: "jsstring \<Rightarrow> js_error + jsstring" where
  "encodeURIComponent [] = Inr []"
| "encodeURIComponent (c # cs) =
     (if uri_unreserved c then append_ok [c] (encodeURIComponent cs)
      else if \<not> is_lead c \<and> \<not> is_trail c then
        append_ok (percent_octets (utf8 (unat c))) (encodeURIComponent cs)
      else if is_lead c then
        (case cs of
           [] \<Rightarrow> Inl URIError
         | d # ds \<Rightarrow>
             if is_trail d
             then append_ok (percent_octets (utf8 (pair_code_point c d))) (encodeURIComponent ds)
             else Inl URIError)
      else Inl URIError)"

definition defaultMessage :: jsstring where
  "defaultMessage = js ''Hello KELAH Agrovet, I'd like to inquire about your services.''"

text \<open>
  The parameter \<open>message\<close> is \<open>None\<close> when the argument is omitted; its default is the
  empty string, and \<open>message || defaultMessage\<close> takes the default for the empty string.
\<close>

definition getWhatsAppLink :: "config \<Rightarrow> jsstring option \<Rightarrow> js_error + jsstring" where
  "getWhatsAppLink cfg message =
     (let m = (case message of None \<Rightarrow> [] | Some s \<Rightarrow> s);
          chosen = (if m = [] then defaultMessage else m)
      in case encodeURIComponent chosen of
           Inl e \<Rightarrow> Inl e
         | Inr text \<Rightarrow> Inr (js ''https://wa.me/'' @ whatsapp (business cfg) @ js ''?text='' @ text))"

text \<open>No code unit of the string is a surrogate without its partner.\<close>

fun well_formed :: "jsstring \<Rightarrow> bool" where
  "well_formed [] = True"
| "well_formed [c] = (\<not> is_lead c \<and> \<not> is_trail c)"
| "well_formed (c # d # ds) =
     (if is_lead c then is_trail d \<and> well_formed ds
      else \<not> is_trail c \<and> well_formed (d # ds))"

section \<open>KelahApp: the mobile menu (src/js/config.js)\<close>

text \<open>
  \<open>DOM.headerActions\<close> and \<open>DOM.menuToggle\<close> are what \<open>querySelector\<close> returned: the
  element, here its class list, or \<open>null\<close>. \<open>sections\<close> are the four cached sections
  that \<open>handleScroll\<close> walks, each with its \<open>offsetTop\<close>, \<open>offsetHeight\<close> and \<open>id\<close>.
\<close>

record section_box =
  offsetTop :: nat
  offsetHeight :: nat
  section_id :: jsstring

record app =
  mobileMenuOpen :: bool
  currentSection :: jsstring
  headerActions :: "jsstring list option"
  menuToggle :: "jsstring list option"
  sections :: "section_box option list"
  body_overflow :: jsstring

text \<open>\<open>classList.toggle(c)\<close>: remove the class when present, add it otherwise.\<close>

definition classList_toggle :: "jsstring \<Rightarrow> jsstring list \<Rightarrow> jsstring list" where
  "classList_toggle c cl = (if c \<in> set cl then removeAll c cl else cl @ [c])"

text \<open>
  Reading \<open>.classList\<close> of \<open>null\<close> throws a \<open>TypeError\<close>; the assignments made before
  the throw stay.
\<close>

definition toggleMobileMenu :: "app \<Rightarrow> app completion" where
  "toggleMobileMenu a =
     (let a1 = a\<lparr>mobileMenuOpen := \<not> mobileMenuOpen a\<rparr>
      in case headerActions a1 of
           None \<Rightarrow> Throw TypeError a1
         | Some ha \<Rightarrow>
             (let a2 = a1\<lparr>headerActions := Some (classList_toggle (js ''active'') ha)\<rparr>
              in case menuToggle a2 of
                   None \<Rightarrow> Throw TypeError a2
                 | Some mt \<Rightarrow>
                     (let a3 = a2\<lparr>menuToggle := Some (classList_toggle (js ''active'') mt)\<rparr>
                      in Normal (a3\<lparr>body_overflow :=
                           (if mobileMenuOpen a3 then js ''hidden'' else js ''auto'')\<rparr>))))"

definition handleResize :: "config \<Rightarrow> nat \<Rightarrow> app \<Rightarrow> app completion" where
  "handleResize cfg innerWidth a =
     (if mobile (breakpoints cfg) \<le> innerWidth \<and> mobileMenuOpen a then toggleMobileMenu a
      else Normal a)"

fun handleScroll_each :: "nat \<Rightarrow> section_box option list \<Rightarrow> app \<Rightarrow> app" where
  "handleScroll_each scrollPosition [] a = a"
| "handleScroll_each scrollPosition (None # rest) a = handleScroll_each scrollPosition rest a"
| "handleScroll_each scrollPosition (Some s # rest) a =
     handleScroll_each scrollPosition rest
       (if offsetTop s \<le> scrollPosition \<and> scrollPosition < offsetTop s + offsetHeight s
        then a\<lparr>currentSection := section_id s\<rparr> else a)"

definition handleScroll :: "nat \<Rightarrow> app \<Rightarrow> app completion" where
  "handleScroll scrollY a = Normal (handleScroll_each (scrollY + 200) (sections a) a)"

text \<open>
  The events that \<open>initEventListeners\<close> wires, each with what its handler reads from the
  window: a click on \<open>#menuToggle\<close> (wired only when the element exists), a click on a
  link inside \<open>.header__actions\<close>, \<open>resize\<close> (the debounced handler, with \<open>innerWidth\<close>),
  \<open>scroll\<close> (the throttled handler, with \<open>scrollY\<close>), and the clicks on phone, WhatsApp
  and product-category buttons, whose handlers log, set the link target and scroll, and
  touch none of the fields of \<open>app\<close>.
\<close>

datatype app_event =
  MenuToggleClick | HeaderLinkClick | Resize nat | Scroll nat
  | PhoneClick | WhatsAppClick | ProductClick

fun dispatch :: "config \<Rightarrow> app_event \<Rightarrow> app \<Rightarrow> app completion" where
  "dispatch cfg MenuToggleClick a =
     (if menuToggle a \<noteq> None then toggleMobileMenu a else Normal a)"
| "dispatch cfg HeaderLinkClick a = (if mobileMenuOpen a then toggleMobileMenu a else Normal a)"
| "dispatch cfg (Resize w) a = handleResize cfg w a"
| "dispatch cfg (Scroll y) a = handleScroll y a"
| "dispatch cfg PhoneClick a = Normal a"
| "dispatch cfg WhatsAppClick a = Normal a"
| "dispatch cfg ProductClick a = Normal a"

section \<open>KelahApp.init and Utils.logError\<close>

text \<open>
  The statements of the \<open>try\<close> block, in order. Whether one of them throws depends on
  the page and the browser: \<open>step_throws env\<close> gives, for each step, the exception it
  throws there, if any, and \<open>utils_defined env\<close> says whether the global \<open>Utils\<close> exists
  (it does not when the utilities script has failed to load). Without \<open>Utils\<close> every
  step that names it throws a \<open>ReferenceError\<close>, and so does the call of
  \<open>Utils.logError\<close> in the \<open>catch\<close> block. \<open>steps_done\<close> lists the steps that ran to
  their end and \<open>console_error\<close> the lines written by \<open>console.error\<close>, each with the
  error object passed along.
\<close>

datatype init_step =
  CacheDOMElements | InitEventListeners | AnimationsInit | UpdateContactLinks
  | LazyLoadImages | RemoveLoadingClass | LogLoaded

record init_env =
  utils_defined :: bool
  step_throws :: "init_step \<Rightarrow> js_error option"

record init_state =
  steps_done :: "init_step list"
  console_error :: "(jsstring \<times> js_error option) list"

definition names_Utils :: "config \<Rightarrow> init_step \<Rightarrow> bool" where
  "names_Utils cfg step =
     (step = CacheDOMElements \<or> step = InitEventListeners \<or>
      (step = AnimationsInit \<and> scrollReveal_enabled cfg) \<or>
      step = UpdateContactLinks \<or> step = LazyLoadImages)"

definition step_outcome :: "config \<Rightarrow> init_env \<Rightarrow> init_step \<Rightarrow> js_error option" where
  "step_outcome cfg env step =
     (if \<not> utils_defined env \<and> names_Utils cfg step then Some ReferenceError
      else step_throws env step)"

definition run_step ::
  "config \<Rightarrow> init_env \<Rightarrow> init_step \<Rightarrow> init_state \<Rightarrow> init_state completion" where
  "run_step cfg env step s =
     (case step_outcome cfg env step of
        Some e \<Rightarrow> Throw e s
      | None \<Rightarrow> Normal (s\<lparr>steps_done := steps_done s @ [step]\<rparr>))"

fun run_steps ::
  "config \<Rightarrow> init_env \<Rightarrow> init_step list \<Rightarrow> init_state \<Rightarrow> init_state completion" where
  "run_steps cfg env [] s = Normal s"
| "run_steps cfg env (x # xs) s =
     (case run_step cfg env x s of
        Throw e s' \<Rightarrow> Throw e s'
      | Normal s' \<Rightarrow> run_steps cfg env xs s')"

definition try_block :: "config \<Rightarrow> init_step list" where
  "try_block cfg =
     [CacheDOMElements, InitEventListeners, AnimationsInit, UpdateContactLinks] @
     (if lazyLoadImages cfg then [LazyLoadImages] else []) @
     [RemoveLoadingClass, LogLoaded]"

definition logError :: "init_env \<Rightarrow> jsstring \<Rightarrow> js_error option \<Rightarrow> init_state \<Rightarrow> init_state completion" where
  "logError env message error s =
     (if \<not> utils_defined env then Throw ReferenceError s
      else Normal (s\<lparr>console_error := console_error s @ [(js ''[KELAH Error] '' @ message, error)]\<rparr>))"

definition init :: "config \<Rightarrow> init_env \<Rightarrow> init_state \<Rightarrow> init_state completion" where
  "init cfg env s =
     (case run_steps cfg env (try_block cfg) s of
        Normal s' \<Rightarrow> Normal s'
      | Throw error s' \<Rightarrow> logError env (js ''Initialization failed'') (Some error) s')"

text \<open>
  Three environments: all is well; a browser without \<open>IntersectionObserver\<close>, where the
  two steps that construct one throw; a page on which the utilities script is missing.
\<close>

definition no_throw :: "init_step \<Rightarrow> js_error option" where
  "no_throw step = None"

definition no_observer :: "init_step \<Rightarrow> js_error option" where
  "no_observer step =
     (if step = AnimationsInit \<or> step = LazyLoadImages then Some ReferenceError else None)"

definition sound_env :: init_env where
  "sound_env = \<lparr>utils_defined = True, step_throws = no_throw\<rparr>"

definition no_observer_env :: init_env where
  "no_observer_env = \<lparr>utils_defined = True, step_throws = no_observer\<rparr>"

definition no_utils_env :: init_env where
  "no_utils_env = \<lparr>utils_defined = False, step_throws = no_throw\<rparr>"

section \<open>KelahApp.showNotification (src/js/config.js)\<close>

text \<open>
  The properties that the assignment to \<open>style.cssText\<close> sets on the new element. Each
  element that \<open>createElement\<close> returns is a new object; \<open>node_id\<close> is its identity.
  \<open>body_children\<close> are the notification elements that are children of \<open>document.body\<close>.
\<close>

record notification_css =
  position_css :: jsstring
  top_css :: jsstring
  right_css :: jsstring
  padding_css :: jsstring
  background_css :: jsstring
  color_css :: jsstring
  border_radius_css :: jsstring
  box_shadow_css :: jsstring
  z_index_css :: jsstring
  animation_css :: jsstring

record notification_node =
  node_id :: nat
  className :: jsstring
  textContent :: jsstring
  cssText :: notification_css

record document =
  body_children :: "notification_node list"
  next_node :: nat

text \<open>The two arrow functions passed to \<open>setTimeout\<close>, each capturing the element.\<close>

datatype notif_cb = BeginExit nat | RemoveNode nat

definition new_notification :: "nat \<Rightarrow> jsstring \<Rightarrow> jsstring \<Rightarrow> notification_node" where
  "new_notification i message ty =
     \<lparr>node_id = i,
      className = js ''notification notification--'' @ ty,
      textContent = message,
      cssText =
        \<lparr>position_css = js ''fixed'',
         top_css = js ''20px'',
         right_css = js ''20px'',
         padding_css = js ''16px 24px'',
         background_css = (if ty = js ''success'' then js ''#27AE60'' else js ''#E74C3C''),
         color_css = js ''white'',
         border_radius_css = js ''8px'',
         box_shadow_css = js ''0 4px 12px rgba(0,0,0,0.15)'',
         z_index_css = js ''1000'',
         animation_css = js ''slideIn 0.3s ease-out''\<rparr>\<rparr>"

text \<open>The parameter \<open>type\<close> is \<open>None\<close> when the argument is omitted; its default is \<open>info\<close>.\<close>

definition showNotification ::
  "nat \<Rightarrow> jsstring \<Rightarrow> jsstring option \<Rightarrow> document \<times> notif_cb timers \<Rightarrow> document \<times> notif_cb timers" where
  "showNotification now message type st =
     (let ty = (case type of None \<Rightarrow> js ''info'' | Some s \<Rightarrow> s);
          notification = new_notification (next_node (fst st)) message ty;
          d = (fst st)\<lparr>body_children := body_children (fst st) @ [notification],
                       next_node := Suc (next_node (fst st))\<rparr>;
          (h, q) = setTimeout (BeginExit (node_id notification)) 3000 now (snd st)
      in (d, q))"

definition set_animation :: "nat \<Rightarrow> jsstring \<Rightarrow> notification_node \<Rightarrow> notification_node" where
  "set_animation i v n =
     (if node_id n = i then n\<lparr>cssText := (cssText n)\<lparr>animation_css := v\<rparr>\<rparr> else n)"

fun notif_exec ::
  "notif_cb timer \<Rightarrow> document \<times> notif_cb timers \<Rightarrow> document \<times> notif_cb timers" where
  "notif_exec x (d, q) =
     (case callback x of
        BeginExit i \<Rightarrow>
          (let d1 = d\<lparr>body_children :=
                       map (set_animation i (js ''slideOut 0.3s ease-out'')) (body_children d)\<rparr>;
               (h, q1) = setTimeout (RemoveNode i) 300 (due x) q
           in (d1, q1))
      | RemoveNode i \<Rightarrow>
          (d\<lparr>body_children := filter (\<lambda>n. node_id n \<noteq> i) (body_children d)\<rparr>, q))"

definition in_document :: "nat \<Rightarrow> document \<Rightarrow> bool" where
  "in_document i d = (i \<in> node_id ` set (body_children d))"

text \<open>
  A page is well formed when the identities in use, in the document and in the pending
  timers, are below the next fresh one.
\<close>

definition captured :: "notif_cb \<Rightarrow> nat" where
  "captured c = (case c of BeginExit i \<Rightarrow> i | RemoveNode i \<Rightarrow> i)"

definition notif_wf :: "document \<times> notif_cb timers \<Rightarrow> bool" where
  "notif_wf st =
     ((\<forall>n\<in>set (body_children (fst st)). node_id n < next_node (fst st)) \<and>
      (\<forall>x\<in>set (pending (snd st)). captured (callback x) < next_node (fst st)))"

text \<open>
  A session: a notification is shown at \<open>t0\<close>, further ones by the calls of \<open>later\<close>
  (in the same task or in later ones), and the clock runs on until every timer due at
  or before \<open>T\<close> has run.
\<close>

definition notif_handler ::
  "nat \<Rightarrow> jsstring \<times> jsstring option \<Rightarrow> document \<times> notif_cb timers \<Rightarrow> document \<times> notif_cb timers" where
  "notif_handler now ev st = showNotification now (fst ev) (snd ev) st"

definition notif_session ::
  "nat \<Rightarrow> jsstring \<Rightarrow> jsstring option \<Rightarrow> (jsstring \<times> jsstring option) call list \<Rightarrow> nat
     \<Rightarrow> document \<times> notif_cb timers \<Rightarrow> (document \<times> notif_cb timers) option" where
  "notif_session t0 message type later T st =
     (case run_calls notif_exec notif_handler t0 later (showNotification t0 message type st) of
        None \<Rightarrow> None
      | Some st' \<Rightarrow> run_timers notif_exec T st')"

text \<open>The work left in a timer queue: a pending exit still has its removal to come.\<close>

definition notif_rank :: "notif_cb \<Rightarrow> nat" where
  "notif_rank c = (case c of BeginExit i \<Rightarrow> 2 | RemoveNode i \<Rightarrow> 1)"

definition notif_measure :: "document \<times> notif_cb timers \<Rightarrow> nat" where
  "notif_measure st = sum_list (map (\<lambda>x. notif_rank (callback x)) (pending (snd st)))"

text \<open>
  The life of the notification with identity \<open>k\<close> shown at \<open>t0\<close>: displayed (its exit is
  pending for \<open>t0 + 3000\<close>), leaving (its removal is pending for \<open>t0 + 3300\<close>), gone.
\<close>

definition pending_for :: "notif_cb \<Rightarrow> notif_cb timers \<Rightarrow> notif_cb timer list" where
  "pending_for c q = filter (\<lambda>x. callback x = c) (pending q)"

definition displayed :: "nat \<Rightarrow> nat \<Rightarrow> document \<times> notif_cb timers \<Rightarrow> bool" where
  "displayed k t0 st =
     (in_document k (fst st) \<and> k < next_node (fst st) \<and>
      length (pending_for (BeginExit k) (snd st)) = 1 \<and>
      pending_for (RemoveNode k) (snd st) = [] \<and>
      (\<forall>x\<in>set (pending_for (BeginExit k) (snd st)). due x = t0 + 3000))"

definition leaving :: "nat \<Rightarrow> nat \<Rightarrow> document \<times> notif_cb timers \<Rightarrow> bool" where
  "leaving k t0 st =
     (in_document k (fst st) \<and> k < next_node (fst st) \<and>
      pending_for (BeginExit k) (snd st) = [] \<and>
      length (pending_for (RemoveNode k) (snd st)) = 1 \<and>
      (\<forall>x\<in>set (pending_for (RemoveNode k) (snd st)). due x = t0 + 3300))"

definition gone :: "nat \<Rightarrow> document \<times> notif_cb timers \<Rightarrow> bool" where
  "gone k st =
     (\<not> in_document k (fst st) \<and> k < next_node (fst st) \<and>
      pending_for (BeginExit k) (snd st) = [] \<and>
      pending_for (RemoveNode k) (snd st) = [])"

definition notif_alive :: "nat \<Rightarrow> nat \<Rightarrow> document \<times> notif_cb timers \<Rightarrow> bool" where
  "notif_alive k t0 st = (displayed k t0 st \<or> leaving k t0 st)"

definition notif_life :: "nat \<Rightarrow> nat \<Rightarrow> document \<times> notif_cb timers \<Rightarrow> bool" where
  "notif_life k t0 st = (displayed k t0 st \<or> leaving k t0 st \<or> gone k st)"

text \<open>A page with no notification on it and no timer pending.\<close>

definition empty_page :: "document \<times> notif_cb timers" where
  "empty_page = (\<lparr>body_children = [], next_node = 0\<rparr>, \<lparr>next_handle = 1, pending = []\<rparr>)"

section \<open>Animations: scroll reveal and product stagger (animations script)\<close>

text \<open>
  Elements are named by numbers. \<open>anim_dom\<close> holds what the selectors return on the
  page: \<open>revealElements\<close> for \<open>.service-card, .product-category, .testimonial,
  .contact__card\<close>, \<open>productCards\<close> for \<open>.product-category\<close> and \<open>productsSection\<close> for
  \<open>#products\<close>. \<open>anim_page\<close> holds the inline style of every element, the observation
  targets of the two \<open>IntersectionObserver\<close>s, and \<open>revealed_log\<close>, which records each
  run of the scroll-reveal timer callback with the element it reveals.
\<close>

record el_style =
  opacity :: jsstring
  transform :: jsstring
  transition :: jsstring

record anim_dom =
  revealElements :: "nat list"
  productCards :: "nat list"
  productsSection :: "nat option"

record anim_page =
  styles :: "nat \<Rightarrow> el_style"
  reveal_targets :: "nat list"
  product_targets :: "nat list"
  revealed_log :: "nat list"

datatype anim_cb = RevealShow nat | StaggerShow nat

definition observe :: "nat \<Rightarrow> nat list \<Rightarrow> nat list" where
  "observe el targets = (if el \<in> set targets then targets else targets @ [el])"

definition unobserve :: "nat \<Rightarrow> nat list \<Rightarrow> nat list" where
  "unobserve el targets = removeAll el targets"

definition reveal_hide :: "nat \<Rightarrow> anim_page \<Rightarrow> anim_page" where
  "reveal_hide el p =
     p\<lparr>styles := (styles p)(el :=
         \<lparr>opacity = js ''0'', transform = js ''translateY(30px)'',
          transition = js ''opacity 0.6s ease-out, transform 0.6s ease-out''\<rparr>)\<rparr>"

definition initScrollReveal :: "anim_dom \<Rightarrow> anim_page \<Rightarrow> anim_page" where
  "initScrollReveal pg p =
     (let p1 = fold reveal_hide (revealElements pg) p
      in p1\<lparr>reveal_targets := fold observe (revealElements pg) (reveal_targets p1)\<rparr>)"

definition stagger_hide :: "nat \<Rightarrow> anim_page \<Rightarrow> anim_page" where
  "stagger_hide pc p =
     p\<lparr>styles := (styles p)(pc :=
         \<lparr>opacity = js ''0'', transform = js ''translateY(40px) scale(0.95)'',
          transition = js ''all 0.6s cubic-bezier(0.4, 0, 0.2, 1)''\<rparr>)\<rparr>"

definition initProductStagger :: "anim_dom \<Rightarrow> anim_page \<Rightarrow> anim_page" where
  "initProductStagger pg p =
     (let p1 = fold stagger_hide (productCards pg) p
      in case productsSection pg of
           None \<Rightarrow> p1
         | Some s \<Rightarrow> p1\<lparr>product_targets := observe s (product_targets p1)\<rparr>)"

text \<open>
  \<open>Animations.init\<close>: \<open>initHeaderScroll\<close> and \<open>initSmoothScroll\<close>, which run between the
  two, touch none of the fields of \<open>anim_page\<close>.
\<close>

definition Animations_init :: "config \<Rightarrow> anim_dom \<Rightarrow> anim_page \<Rightarrow> anim_page" where
  "Animations_init cfg pg p =
     (if \<not> scrollReveal_enabled cfg then p
      else initProductStagger pg (initScrollReveal pg p))"

text \<open>
  The callback of \<open>revealObserver\<close>, \<open>entries.forEach((entry, index) => ...)\<close>; an entry
  is its target and its \<open>isIntersecting\<close>.
\<close>

fun reveal_entries ::
  "nat \<Rightarrow> nat \<Rightarrow> (nat \<times> bool) list \<Rightarrow> anim_page \<times> anim_cb timers \<Rightarrow> anim_page \<times> anim_cb timers" where
  "reveal_entries now index [] st = st"
| "reveal_entries now index (entry # rest) st =
     reveal_entries now (Suc index) rest
       (if snd entry then
          ((fst st)\<lparr>reveal_targets := unobserve (fst entry) (reveal_targets (fst st))\<rparr>,
           snd (setTimeout (RevealShow (fst entry)) (index * 100) now (snd st)))
        else st)"

fun stagger_cards :: "nat \<Rightarrow> nat \<Rightarrow> nat list \<Rightarrow> anim_cb timers \<Rightarrow> anim_cb timers" where
  "stagger_cards now index [] q = q"
| "stagger_cards now index (pc # rest) q =
     stagger_cards now (Suc index) rest (snd (setTimeout (StaggerShow pc) (index * 150) now q))"

text \<open>The callback of \<open>productObserver\<close>; \<open>disconnect\<close> drops every target.\<close>

fun product_entries ::
  "anim_dom \<Rightarrow> nat \<Rightarrow> (nat \<times> bool) list \<Rightarrow> anim_page \<times> anim_cb timers \<Rightarrow> anim_page \<times> anim_cb timers" where
  "product_entries pg now [] st = st"
| "product_entries pg now (entry # rest) st =
     product_entries pg now rest
       (if snd entry then
          ((fst st)\<lparr>product_targets := []\<rparr>, stagger_cards now 0 (productCards pg) (snd st))
        else st)"

fun anim_exec :: "anim_cb timer \<Rightarrow> anim_page \<times> anim_cb timers \<Rightarrow> anim_page \<times> anim_cb timers" where
  "anim_exec x (p, q) =
     (case callback x of
        RevealShow el \<Rightarrow>
          (p\<lparr>styles := (styles p)(el :=
                (styles p el)\<lparr>opacity := js ''1'', transform := js ''translateY(0)''\<rparr>),
             revealed_log := revealed_log p @ [el]\<rparr>, q)
      | StaggerShow pc \<Rightarrow>
          (p\<lparr>styles := (styles p)(pc :=
                (styles p pc)\<lparr>opacity := js ''1'', transform := js ''translateY(0) scale(1)''\<rparr>)\<rparr>,
           q))"

text \<open>
  What the browser does: from the intersection changes it has computed it makes the
  entries of an observer, one for each change whose element is a target of that
  observer, in order, and hands them to the observer's callback.
\<close>

datatype anim_event = RevealNotify "(nat \<times> bool) list" | ProductNotify "(nat \<times> bool) list"

definition delivered :: "nat list \<Rightarrow> (nat \<times> bool) list \<Rightarrow> (nat \<times> bool) list" where
  "delivered targets changes = filter (\<lambda>c. fst c \<in> set targets) changes"

definition anim_handler ::
  "anim_dom \<Rightarrow> nat \<Rightarrow> anim_event \<Rightarrow> anim_page \<times> anim_cb timers \<Rightarrow> anim_page \<times> anim_cb timers" where
  "anim_handler pg now ev st =
     (case ev of
        RevealNotify changes \<Rightarrow>
          reveal_entries now 0 (delivered (reveal_targets (fst st)) changes) st
      | ProductNotify changes \<Rightarrow>
          product_entries pg now (delivered (product_targets (fst st)) changes) st)"

text \<open>
  A session: on a page whose elements have the inline styles \<open>styles0\<close>,
  \<open>Animations.init\<close> runs, the observers make the calls of a trace, and the clock runs
  on until every timer due at or before \<open>T\<close> has run.
\<close>

definition anim_start :: "config \<Rightarrow> anim_dom \<Rightarrow> (nat \<Rightarrow> el_style) \<Rightarrow> anim_page \<times> anim_cb timers" where
  "anim_start cfg pg styles0 =
     (Animations_init cfg pg
        \<lparr>styles = styles0, reveal_targets = [], product_targets = [], revealed_log = []\<rparr>,
      \<lparr>next_handle = 1, pending = []\<rparr>)"

definition anim_session ::
  "config \<Rightarrow> anim_dom \<Rightarrow> (nat \<Rightarrow> el_style) \<Rightarrow> anim_event call list \<Rightarrow> nat
     \<Rightarrow> (anim_page \<times> anim_cb timers) option" where
  "anim_session cfg pg styles0 calls T =
     (case run_calls anim_exec (anim_handler pg) 0 calls (anim_start cfg pg styles0) of
        None \<Rightarrow> None
      | Some st \<Rightarrow> run_timers anim_exec T st)"

text \<open>
  The element \<open>el\<close> has been reported as intersecting by the scroll-reveal observer; a
  batch of changes reports it as intersecting at most once; the product observer has
  reported an intersection.
\<close>

definition reports :: "nat \<Rightarrow> anim_event \<Rightarrow> bool" where
  "reports el ev =
     (case ev of RevealNotify changes \<Rightarrow> (el, True) \<in> set changes | ProductNotify changes \<Rightarrow> False)"

definition reported :: "nat \<Rightarrow> anim_event call list \<Rightarrow> bool" where
  "reported el calls = list_ex (\<lambda>e. reports el (snd e)) (timed 0 calls)"

definition intersects_once :: "nat \<Rightarrow> anim_event \<Rightarrow> bool" where
  "intersects_once el ev =
     (case ev of RevealNotify changes \<Rightarrow> count_list changes (el, True) \<le> 1
      | ProductNotify changes \<Rightarrow> True)"

definition product_intersects :: "anim_event \<Rightarrow> bool" where
  "product_intersects ev =
     (case ev of RevealNotify changes \<Rightarrow> False | ProductNotify changes \<Rightarrow> list_ex snd changes)"

definition stagger_started :: "anim_event call list \<Rightarrow> bool" where
  "stagger_started calls = list_ex (\<lambda>e. product_intersects (snd e)) (timed 0 calls)"

text \<open>
  When the reveal of \<open>el\<close> is due, read off the trace alone. The targets of the observer
  are followed through the trace: a batch takes away the elements it reports as
  intersecting. The first batch whose delivered entries report \<open>el\<close> as intersecting,
  at index \<open>i\<close>, sets the reveal for the time of that batch plus the delay \<open>i * 100\<close>.
\<close>

fun index_of :: "'a \<Rightarrow> 'a list \<Rightarrow> nat" where
  "index_of a [] = 0"
| "index_of a (x # xs) = (if x = a then 0 else Suc (index_of a xs))"

definition still_observed :: "(nat \<times> bool) list \<Rightarrow> nat list \<Rightarrow> nat list" where
  "still_observed es targets = filter (\<lambda>x. (x, True) \<notin> set es) targets"

fun reveal_due :: "nat \<Rightarrow> nat list \<Rightarrow> (nat \<times> anim_event) list \<Rightarrow> nat option" where
  "reveal_due el targets [] = None"
| "reveal_due el targets ((t, RevealNotify changes) # rest) =
     (if (el, True) \<in> set (delivered targets changes)
      then Some (t + timer_delay (index_of (el, True) (delivered targets changes) * 100))
      else reveal_due el (still_observed (delivered targets changes) targets) rest)"
| "reveal_due el targets ((t, ProductNotify changes) # rest) = reveal_due el targets rest"

definition anim_pending_for :: "anim_cb \<Rightarrow> anim_cb timers \<Rightarrow> anim_cb timer list" where
  "anim_pending_for c q = filter (\<lambda>x. callback x = c) (pending q)"

text \<open>
  The life of a watched element under the scroll-reveal controller: \<open>watching\<close>, still
  observed, its reveal neither set nor run; \<open>scheduled\<close>, no longer observed, with
  exactly one reveal timer pending, due at \<open>d\<close>; \<open>shown\<close>, no longer observed, its reveal
  run exactly once, none pending, opacity 1 and no translation left.
\<close>

definition watching :: "nat \<Rightarrow> anim_page \<times> anim_cb timers \<Rightarrow> bool" where
  "watching el st =
     (el \<in> set (reveal_targets (fst st)) \<and>
      count_list (revealed_log (fst st)) el = 0 \<and>
      anim_pending_for (RevealShow el) (snd st) = [])"

definition scheduled :: "nat \<Rightarrow> nat \<Rightarrow> anim_page \<times> anim_cb timers \<Rightarrow> bool" where
  "scheduled el d st =
     (el \<notin> set (reveal_targets (fst st)) \<and>
      count_list (revealed_log (fst st)) el = 0 \<and>
      length (anim_pending_for (RevealShow el) (snd st)) = 1 \<and>
      list_all (\<lambda>x. due x = d) (anim_pending_for (RevealShow el) (snd st)))"

definition shown :: "nat \<Rightarrow> anim_page \<times> anim_cb timers \<Rightarrow> bool" where
  "shown el st =
     (el \<notin> set (reveal_targets (fst st)) \<and>
      count_list (revealed_log (fst st)) el = 1 \<and>
      anim_pending_for (RevealShow el) (snd st) = [] \<and>
      opacity (styles (fst st) el) = js ''1'' \<and>
      transform (styles (fst st) el) \<in> {js ''translateY(0)'', js ''translateY(0) scale(1)''})"

text \<open>
  The style that \<open>Animations.init\<close> leaves on a watched element, and the state of an
  element that the product stagger has not touched: until its reveal has run it has
  that very style, afterwards it has opacity 1 and the transform \<open>translateY(0)\<close>.
\<close>

definition hidden_style :: "anim_dom \<Rightarrow> nat \<Rightarrow> el_style" where
  "hidden_style pg el =
     (if el \<in> set (productCards pg)
      then \<lparr>opacity = js ''0'', transform = js ''translateY(40px) scale(0.95)'',
            transition = js ''all 0.6s cubic-bezier(0.4, 0, 0.2, 1)''\<rparr>
      else \<lparr>opacity = js ''0'', transform = js ''translateY(30px)'',
            transition = js ''opacity 0.6s ease-out, transform 0.6s ease-out''\<rparr>)"

definition unstaggered :: "anim_dom \<Rightarrow> nat \<Rightarrow> anim_page \<times> anim_cb timers \<Rightarrow> bool" where
  "unstaggered pg el st =
     (anim_pending_for (StaggerShow el) (snd st) = [] \<and>
      (if count_list (revealed_log (fst st)) el = 0
       then styles (fst st) el = hidden_style pg el
       else opacity (styles (fst st) el) = js ''1'' \<and>
            transform (styles (fst st) el) = js ''translateY(0)''))"

definition anim_measure :: "anim_page \<times> anim_cb timers \<Rightarrow> nat" where
  "anim_measure st = length (pending (snd st))"

text \<open>
  The state a session goes through once the reveal of \<open>el\<close> has been set for \<open>d\<close>, when
  no task opens after \<open>T\<close>.
\<close>

definition reveal_set :: "nat \<Rightarrow> nat \<Rightarrow> nat \<Rightarrow> anim_page \<times> anim_cb timers \<Rightarrow> bool" where
  "reveal_set el d T st = (scheduled el d st \<or> (shown el st \<and> d \<le> T))"

text \<open>The inline style of an element, and the runs of its reveal, at the end of a session.\<close>

definition style_after ::
  "config \<Rightarrow> anim_dom \<Rightarrow> (nat \<Rightarrow> el_style) \<Rightarrow> anim_event call list \<Rightarrow> nat \<Rightarrow> nat
     \<Rightarrow> el_style option" where
  "style_after cfg pg styles0 calls T el =
     map_option (\<lambda>st. styles (fst st) el) (anim_session cfg pg styles0 calls T)"

definition reveals_after ::
  "config \<Rightarrow> anim_dom \<Rightarrow> (nat \<Rightarrow> el_style) \<Rightarrow> anim_event call list \<Rightarrow> nat \<Rightarrow> nat
     \<Rightarrow> nat option" where
  "reveals_after cfg pg styles0 calls T el =
     map_option (\<lambda>st. count_list (revealed_log (fst st)) el)
       (anim_session cfg pg styles0 calls T)"

definition no_inline_style :: "nat \<Rightarrow> el_style" where
  "no_inline_style el = \<lparr>opacity = [], transform = [], transition = []\<rparr>"

text \<open>
  A page with a service card, element 0, and a product card, element 1, inside the
  products section, element 9.
\<close>

definition two_card_page :: anim_dom where
  "two_card_page = \<lparr>revealElements = [0, 1], productCards = [1], productsSection = Some 9\<rparr>"

section \<open>Facts about the timer loop\<close>


lemma run_timers_idle:
  "next_due t (snd st) = None \<Longrightarrow> run_timers exec t st = Some st"
  by (subst run_timers.simps) simp

lemma run_timers_fire:
  "next_due t (snd st) = Some x \<Longrightarrow>
   run_timers exec t st =
     run_timers exec t (exec x (fst st, pop_timer x (snd st)))"
  by (subst run_timers.simps) simp

lemma earliest_Some:
  "earliest xs = Some x \<Longrightarrow> x \<in> set xs \<and> (\<forall>y\<in>set xs. due x \<le> due y)"
proof (induction xs arbitrary: x)
  case Nil
  then show ?case by simp
next
  case (Cons a xs)
  show ?case
  proof (cases "earliest xs")
    case None
    then have "xs = []" by (cases xs) (auto split: option.splits if_splits)
    with Cons.prems show ?thesis by simp
  next
    case (Some y)
    with Cons.IH have "y \<in> set xs" and "\<forall>z\<in>set xs. due y \<le> due z"
      by auto
    with Cons.prems Some show ?thesis
      by (auto split: if_splits)
  qed
qed

lemma earliest_None: "earliest xs = None \<Longrightarrow> xs = []"
  by (cases xs) (auto split: option.splits if_splits)

lemma next_due_Some: "next_due t q = Some x \<Longrightarrow> x \<in> set (pending q) \<and> due x \<le> t"
  by (auto simp add: next_due_def split: option.splits if_splits dest: earliest_Some)

lemma next_due_None: "next_due t q = None \<Longrightarrow> \<forall>x\<in>set (pending q). t < due x"
  by (cases "earliest (pending q)")
    (fastforce simp add: next_due_def split: if_splits dest: earliest_None earliest_Some)+

lemma next_due_NoneI: "\<forall>x\<in>set (pending q). t < due x \<Longrightarrow> next_due t q = None"
proof (cases "next_due t q")
  case None
  then show ?thesis .
next
  case (Some x)
  then have "x \<in> set (pending q)" and "due x \<le> t"
    by (simp_all add: next_due_Some)
  moreover assume "\<forall>x\<in>set (pending q). t < due x"
  ultimately show ?thesis by force
qed

text \<open>
  The loop rule: an invariant kept by every firing, together with a measure that every
  firing lowers, gives a run that ends, in a state with the invariant and nothing due.
\<close>

lemma run_timers_rule:
  fixes m :: "'s \<times> 'cb timers \<Rightarrow> nat"
  assumes "I st"
    and "\<And>s x. I s \<Longrightarrow> x \<in> set (pending (snd s)) \<Longrightarrow> due x \<le> t \<Longrightarrow>
           I (exec x (fst s, pop_timer x (snd s))) \<and>
           m (exec x (fst s, pop_timer x (snd s))) < m s"
  shows "\<exists>st'. run_timers exec t st = Some st' \<and> I st' \<and>
           (\<forall>x\<in>set (pending (snd st')). t < due x)"
  using assms(1)
proof (induction "m st" arbitrary: st rule: less_induct)
  case less
  show ?case
  proof (cases "next_due t (snd st)")
    case None
    with less.prems show ?thesis
      by (simp add: run_timers_idle next_due_None)
  next
    case (Some x)
    let ?st = "exec x (fst st, pop_timer x (snd st))"
    from Some have "x \<in> set (pending (snd st))" and "due x \<le> t"
      by (simp_all add: next_due_Some)
    from assms(2) [OF less.prems this] have "I ?st" and "m ?st < m st"
      by auto
    from less.hyps [OF this(2) this(1)] obtain st'
      where "run_timers exec t ?st = Some st'" and "I st'"
        and "\<forall>x\<in>set (pending (snd st')). t < due x"
      by auto
    with Some show ?thesis
      by (simp add: run_timers_fire)
  qed
qed

lemma reach_rule:
  fixes m :: "'s \<times> 'cb timers \<Rightarrow> nat"
  assumes "I st"
    and "\<And>s x. I s \<Longrightarrow> x \<in> set (pending (snd s)) \<Longrightarrow> due x \<le> t \<Longrightarrow>
           I (exec x (fst s, pop_timer x (snd s))) \<and>
           m (exec x (fst s, pop_timer x (snd s))) < m s"
  shows "\<exists>st'. reach exec t ties st = Some st' \<and> I st'"
proof (cases "ties \<or> t \<noteq> 0")
  case False
  with assms(1) show ?thesis
    by (simp add: reach_def)
next
  case True
  define u where "u = (if ties then t else t - 1)"
  have "u \<le> t"
    by (simp add: u_def)
  from assms(1) have "\<exists>st'. run_timers exec u st = Some st' \<and> I st' \<and>
      (\<forall>x\<in>set (pending (snd st')). u < due x)"
  proof (rule run_timers_rule [where m = m])
    fix s x
    assume "I s" and "x \<in> set (pending (snd s))" and "due x \<le> u"
    with \<open>u \<le> t\<close> show "I (exec x (fst s, pop_timer x (snd s))) \<and>
        m (exec x (fst s, pop_timer x (snd s))) < m s"
      by (intro assms(2)) simp_all
  qed
  with True show ?thesis
    by (auto simp add: reach_def u_def)
qed

lemma run_calls_rule:
  fixes m :: "'s \<times> 'cb timers \<Rightarrow> nat"
  assumes "I st"
    and "\<And>t s x. t \<in> set (task_times calls) \<Longrightarrow> I s \<Longrightarrow> x \<in> set (pending (snd s)) \<Longrightarrow>
           due x \<le> t \<Longrightarrow>
           I (exec x (fst s, pop_timer x (snd s))) \<and>
           m (exec x (fst s, pop_timer x (snd s))) < m s"
    and "\<And>t ev s. (t, ev) \<in> set (timed now calls) \<Longrightarrow> I s \<Longrightarrow> I (handler t ev s)"
  shows "\<exists>st'. run_calls exec handler now calls st = Some st' \<and> I st'"
  using assms
proof (induction calls arbitrary: now st)
  case Nil
  then show ?case by simp
next
  case (Cons c calls)
  show ?case
  proof (cases c)
    case (NewTask t ties ev)
    have "\<exists>st1. reach exec t ties st = Some st1 \<and> I st1"
      using Cons.prems(1)
    proof (rule reach_rule [where m = m])
      fix s x
      assume "I s" and "x \<in> set (pending (snd s))" and "due x \<le> t"
      then show "I (exec x (fst s, pop_timer x (snd s))) \<and>
          m (exec x (fst s, pop_timer x (snd s))) < m s"
        using Cons.prems(2) [of t s x] by (simp add: NewTask)
    qed
    then obtain st1 where st1: "reach exec t ties st = Some st1" "I st1"
      by auto
    have "I (handler t ev st1)"
      using Cons.prems(3) [of t ev st1] st1(2) by (simp add: NewTask)
    then have "\<exists>st'. run_calls exec handler t calls (handler t ev st1) = Some st' \<and> I st'"
    proof (rule Cons.IH)
      fix t' s x
      assume "t' \<in> set (task_times calls)" and "I s" and "x \<in> set (pending (snd s))"
        and "due x \<le> t'"
      then show "I (exec x (fst s, pop_timer x (snd s))) \<and>
          m (exec x (fst s, pop_timer x (snd s))) < m s"
        using Cons.prems(2) [of t' s x] by (simp add: NewTask)
    next
      fix t' ev' s
      assume "(t', ev') \<in> set (timed t calls)" and "I s"
      then show "I (handler t' ev' s)"
        using Cons.prems(3) [of t' ev' s] by (simp add: NewTask)
    qed
    with st1(1) show ?thesis
      by (simp add: NewTask)
  next
    case (SameTask ev)
    have "I (handler now ev st)"
      using Cons.prems(3) [of now ev st] Cons.prems(1) by (simp add: SameTask)
    then have "\<exists>st'. run_calls exec handler now calls (handler now ev st) = Some st' \<and> I st'"
    proof (rule Cons.IH)
      fix t' s x
      assume "t' \<in> set (task_times calls)" and "I s" and "x \<in> set (pending (snd s))"
        and "due x \<le> t'"
      then show "I (exec x (fst s, pop_timer x (snd s))) \<and>
          m (exec x (fst s, pop_timer x (snd s))) < m s"
        using Cons.prems(2) [of t' s x] by (simp add: SameTask)
    next
      fix t' ev' s
      assume "(t', ev') \<in> set (timed now calls)" and "I s"
      then show "I (handler t' ev' s)"
        using Cons.prems(3) [of t' ev' s] by (simp add: SameTask)
    qed
    then show ?thesis
      by (simp add: SameTask)
  qed
qed


section \<open>Debounce: only the last call of a burst runs\<close>












section \<open>Throttle: one invocation per window\<close>













section \<open>Phone formatting\<close>

text \<open>
  Claim C10. \<open>Utils.formatPhone\<close> deletes the non-digits; when exactly twelve digits
  remain it returns a plus sign and the digits in four groups of three, separated by
  single spaces; when the number of digits is not twelve it returns its input unchanged.
\<close>

theorem formatPhone_regroups:
  "(strip_non_digits s = [d1, d2, d3, d4, d5, d6, d7, d8, d9, d10, d11, d12] \<longrightarrow>
      formatPhone s =
        js ''+'' @ [d1, d2, d3] @ js '' '' @ [d4, d5, d6] @ js '' '' @ [d7, d8, d9] @ js '' '' @
        [d10, d11, d12]) \<and>
   (length (strip_non_digits s) \<noteq> 12 \<longrightarrow> formatPhone s = s)"
  by (simp add: formatPhone_def slice_def)

theorem formatPhone_regroups_witness:
  "strip_non_digits (js ''+254 722-784947'') = js ''254722784947'' \<and>
   formatPhone (js ''+254 722-784947'') = js ''+254 722 784 947'' \<and>
   length (strip_non_digits (js ''0722 784 947'')) \<noteq> 12 \<and>
   formatPhone (js ''0722 784 947'') = js ''0722 784 947''"
proof -
  have digits: "strip_non_digits (js ''+254 722-784947'') = js ''254722784947''"
    by code_simp
  have short: "length (strip_non_digits (js ''0722 784 947'')) \<noteq> 12"
    by code_simp
  have "formatPhone (js ''+254 722-784947'') = js ''+254 722 784 947''"
    using formatPhone_regroups [of "js ''+254 722-784947''" "0x32" "0x35" "0x34" "0x37" "0x32"
        "0x32" "0x37" "0x38" "0x34" "0x39" "0x34" "0x37"] digits
    by (simp add: js_def)
  moreover have "formatPhone (js ''0722 784 947'') = js ''0722 784 947''"
    using formatPhone_regroups [of "js ''0722 784 947''"] short by simp
  ultimately show ?thesis
    using digits short by simp
qed

section \<open>The WhatsApp link\<close>

lemma encode_defaultMessage:
  "encodeURIComponent defaultMessage =
     Inr (js ''Hello%20KELAH%20Agrovet%2C%20I'd%20like%20to%20inquire%20about%20your%20services.'')"
  by code_simp

lemma uri_unreserved_lead: "is_lead c \<Longrightarrow> \<not> uri_unreserved c"
  by (auto simp add: is_lead_def uri_unreserved_def js_def word_le_nat_alt)

lemma encodeURIComponent_total:
  "well_formed m \<Longrightarrow> \<exists>out. encodeURIComponent m = Inr out"
proof (induction m rule: well_formed.induct)
  case 1
  then show ?case by simp
next
  case (2 c)
  then show ?case by (simp add: append_ok_def)
next
  case (3 c d ds)
  show ?case
  proof (cases "is_lead c")
    case True
    with "3.IH" "3.prems" obtain out where "encodeURIComponent ds = Inr out"
      by auto
    with True "3.prems" show ?thesis
      by (simp add: append_ok_def uri_unreserved_lead)
  next
    case False
    with "3.IH" "3.prems" obtain out where "encodeURIComponent (d # ds) = Inr out"
      by auto
    with False "3.prems" show ?thesis
      by (simp add: append_ok_def)
  qed
qed

text \<open>
  Claim C5, as the code has it. Without a message the link is
  \<open>https://wa.me/<handle>?text=\<close> followed by the percent-encoded default inquiry. With a
  message that is not empty and has no unpaired surrogate, the link carries the
  percent-encoding of that message in place of the default.
\<close>

theorem getWhatsAppLink_encodes:
  "getWhatsAppLink cfg None =
     Inr (js ''https://wa.me/'' @ whatsapp (business cfg) @ js ''?text='' @
          js ''Hello%20KELAH%20Agrovet%2C%20I'd%20like%20to%20inquire%20about%20your%20services.'') \<and>
   (m \<noteq> [] \<and> well_formed m \<longrightarrow>
      (\<exists>out. encodeURIComponent m = Inr out \<and>
         getWhatsAppLink cfg (Some m) =
           Inr (js ''https://wa.me/'' @ whatsapp (business cfg) @ js ''?text='' @ out)))"
proof -
  have "getWhatsAppLink cfg (Some m) =
      Inr (js ''https://wa.me/'' @ whatsapp (business cfg) @ js ''?text='' @ out)"
    if "m \<noteq> []" and "encodeURIComponent m = Inr out" for out
    using that by (simp add: getWhatsAppLink_def)
  then show ?thesis
    using encodeURIComponent_total [of m]
    by (auto simp add: getWhatsAppLink_def encode_defaultMessage)
qed

theorem getWhatsAppLink_encodes_witness:
  "getWhatsAppLink CONFIG None =
     Inr (js ''https://wa.me/254722784947?text=Hello%20KELAH%20Agrovet%2C%20I'd%20like%20to%20inquire%20about%20your%20services.'') \<and>
   js ''Price list?'' \<noteq> [] \<and> well_formed (js ''Price list?'') \<and>
   encodeURIComponent (js ''Price list?'') = Inr (js ''Price%20list%3F'') \<and>
   getWhatsAppLink CONFIG (Some (js ''Price list?'')) =
     Inr (js ''https://wa.me/254722784947?text=Price%20list%3F'')"
proof -
  have wf: "js ''Price list?'' \<noteq> [] \<and> well_formed (js ''Price list?'')"
    by code_simp
  have enc: "encodeURIComponent (js ''Price list?'') = Inr (js ''Price%20list%3F'')"
    by code_simp
  have wa: "whatsapp (business CONFIG) = js ''254722784947''"
    by (simp add: CONFIG_def)
  show ?thesis
    using getWhatsAppLink_encodes [of CONFIG "js ''Price list?''"] wf enc wa
    by (simp add: js_def)
qed

text \<open>
  The claim as worded fails for two explicit messages: for the empty string the link
  carries the default inquiry, not the (empty) encoding of the message; for a lone
  surrogate no link is returned at all, \<open>encodeURIComponent\<close> throws.
\<close>

theorem getWhatsAppLink_counterexample:
  "encodeURIComponent [] = Inr [] \<and>
   getWhatsAppLink CONFIG (Some []) =
     Inr (js ''https://wa.me/254722784947?text=Hello%20KELAH%20Agrovet%2C%20I'd%20like%20to%20inquire%20about%20your%20services.'') \<and>
   getWhatsAppLink CONFIG (Some [0xD800]) = Inl URIError"
  by code_simp

section \<open>The mobile menu as a state machine\<close>

lemma toggleMobileMenu_present:
  assumes "headerActions a = Some ha" and "menuToggle a = Some mt"
  shows "toggleMobileMenu a =
     Normal (a\<lparr>mobileMenuOpen := \<not> mobileMenuOpen a,
               headerActions := Some (classList_toggle (js ''active'') ha),
               menuToggle := Some (classList_toggle (js ''active'') mt),
               body_overflow := (if mobileMenuOpen a then js ''auto'' else js ''hidden'')\<rparr>)"
  using assms by (simp add: toggleMobileMenu_def)

lemma dispatch_flag_changes:
  assumes "mobileMenuOpen (state_of (dispatch cfg ev a)) \<noteq> mobileMenuOpen a"
  shows "ev = MenuToggleClick \<or>
         (ev = HeaderLinkClick \<and> mobileMenuOpen a) \<or>
         (\<exists>w. ev = Resize w \<and> mobile (breakpoints cfg) \<le> w \<and> mobileMenuOpen a)"
proof (cases ev)
  case (Scroll y)
  have "mobileMenuOpen (handleScroll_each p ss b) = mobileMenuOpen b" for p ss b
    by (induction p ss b rule: handleScroll_each.induct) simp_all
  with assms Scroll show ?thesis
    by (simp add: handleScroll_def state_of_def)
qed (use assms in \<open>auto simp add: state_of_def handleResize_def split: if_splits\<close>)

text \<open>
  Claim C4, as the code has it. With \<open>#headerActions\<close> and \<open>#menuToggle\<close> on the page:
  a click on the toggle of a closed menu opens it and locks the body scroll, and a second
  click closes it and releases the scroll; a resize to a width at or above the mobile
  breakpoint closes an open menu, and so does a click on a link of the header. The open
  flag changes in these three ways only: by a click on the toggle, by a click on a
  header link while the menu is open, and by such a resize while the menu is open.
\<close>

theorem menu_state_machine:
  assumes "headerActions a = Some ha" and "menuToggle a = Some mt"
  shows "(\<not> mobileMenuOpen a \<longrightarrow>
            (\<exists>a' a''. dispatch cfg MenuToggleClick a = Normal a' \<and> mobileMenuOpen a' \<and>
                 body_overflow a' = js ''hidden'' \<and>
                 dispatch cfg MenuToggleClick a' = Normal a'' \<and> \<not> mobileMenuOpen a'' \<and>
                 body_overflow a'' = js ''auto'')) \<and>
         (mobileMenuOpen a \<and> mobile (breakpoints cfg) \<le> w \<longrightarrow>
            (\<exists>a'. dispatch cfg (Resize w) a = Normal a' \<and> \<not> mobileMenuOpen a' \<and>
                 body_overflow a' = js ''auto'')) \<and>
         (mobileMenuOpen a \<longrightarrow>
            (\<exists>a'. dispatch cfg HeaderLinkClick a = Normal a' \<and> \<not> mobileMenuOpen a' \<and>
                 body_overflow a' = js ''auto'')) \<and>
         (mobileMenuOpen (state_of (dispatch cfg ev a)) \<noteq> mobileMenuOpen a \<longrightarrow>
            ev = MenuToggleClick \<or> (ev = HeaderLinkClick \<and> mobileMenuOpen a) \<or>
            (\<exists>w'. ev = Resize w' \<and> mobile (breakpoints cfg) \<le> w' \<and> mobileMenuOpen a))"
  using assms dispatch_flag_changes [of cfg ev a]
  by (simp add: toggleMobileMenu_present handleResize_def)

theorem menu_state_machine_witness:
  "headerActions \<lparr>mobileMenuOpen = False, currentSection = js ''hero'',
       headerActions = Some [js ''header__actions''], menuToggle = Some [js ''menu-toggle''],
       sections = [], body_overflow = js ''''\<rparr> = Some [js ''header__actions''] \<and>
   menuToggle \<lparr>mobileMenuOpen = False, currentSection = js ''hero'',
       headerActions = Some [js ''header__actions''], menuToggle = Some [js ''menu-toggle''],
       sections = [], body_overflow = js ''''\<rparr> = Some [js ''menu-toggle''] \<and>
   (\<exists>a' a''. dispatch CONFIG MenuToggleClick
       \<lparr>mobileMenuOpen = False, currentSection = js ''hero'',
         headerActions = Some [js ''header__actions''], menuToggle = Some [js ''menu-toggle''],
         sections = [], body_overflow = js ''''\<rparr> = Normal a' \<and>
       mobileMenuOpen a' \<and> body_overflow a' = js ''hidden'' \<and>
       dispatch CONFIG MenuToggleClick a' = Normal a'' \<and>
       \<not> mobileMenuOpen a'' \<and> body_overflow a'' = js ''auto'') \<and>
   mobile (breakpoints CONFIG) \<le> 1024 \<and>
   (\<exists>a'. dispatch CONFIG (Resize 1024)
       \<lparr>mobileMenuOpen = True, currentSection = js ''hero'',
         headerActions = Some [js ''header__actions'', js ''active''],
         menuToggle = Some [js ''menu-toggle'', js ''active''],
         sections = [], body_overflow = js ''hidden''\<rparr> = Normal a' \<and>
       \<not> mobileMenuOpen a' \<and> body_overflow a' = js ''auto'') \<and>
   (\<exists>a'. dispatch CONFIG HeaderLinkClick
       \<lparr>mobileMenuOpen = True, currentSection = js ''hero'',
         headerActions = Some [js ''header__actions'', js ''active''],
         menuToggle = Some [js ''menu-toggle'', js ''active''],
         sections = [], body_overflow = js ''hidden''\<rparr> = Normal a' \<and>
       \<not> mobileMenuOpen a' \<and> body_overflow a' = js ''auto'')"
proof -
  have bp: "mobile (breakpoints CONFIG) \<le> 1024"
    by (simp add: CONFIG_def)
  show ?thesis
    using bp
      menu_state_machine [of "\<lparr>mobileMenuOpen = False, currentSection = js ''hero'',
         headerActions = Some [js ''header__actions''], menuToggle = Some [js ''menu-toggle''],
         sections = [], body_overflow = js ''''\<rparr>"
        "[js ''header__actions'']" "[js ''menu-toggle'']" CONFIG 1024 MenuToggleClick]
      menu_state_machine [of "\<lparr>mobileMenuOpen = True, currentSection = js ''hero'',
         headerActions = Some [js ''header__actions'', js ''active''],
         menuToggle = Some [js ''menu-toggle'', js ''active''],
         sections = [], body_overflow = js ''hidden''\<rparr>"
        "[js ''header__actions'', js ''active'']" "[js ''menu-toggle'', js ''active'']"
        CONFIG 1024 "Resize 1024"]
    by simp
qed

text \<open>
  The claim as worded allows no transition besides the toggle action and the resize. A
  click on a link of the header closes an open menu as well.
\<close>

theorem menu_other_transition_counterexample:
  "dispatch CONFIG HeaderLinkClick
     \<lparr>mobileMenuOpen = True, currentSection = js ''hero'',
       headerActions = Some [js ''header__actions'', js ''active''],
       menuToggle = Some [js ''menu-toggle'', js ''active''],
       sections = [], body_overflow = js ''hidden''\<rparr> =
     Normal \<lparr>mobileMenuOpen = False, currentSection = js ''hero'',
       headerActions = Some [js ''header__actions''], menuToggle = Some [js ''menu-toggle''],
       sections = [], body_overflow = js ''auto''\<rparr>"
  by (simp add: toggleMobileMenu_def classList_toggle_def js_def)

section \<open>Handlers on a page that lacks an element\<close>

text \<open>
  Claim C6 at the menu toggle. On a page that has \<open>#menuToggle\<close> but no
  \<open>#headerActions\<close> the click listener is wired, and the click does not pass silently:
  \<open>toggleMobileMenu\<close> flips the open flag and then throws a \<open>TypeError\<close> at
  \<open>DOM.headerActions.classList\<close>, leaving the flag set with the body scroll not locked.
  A later resize to desktop width finds the flag set, calls \<open>toggleMobileMenu\<close> and
  throws again.
\<close>

theorem toggle_throws_without_headerActions:
  "dispatch CONFIG MenuToggleClick
     \<lparr>mobileMenuOpen = False, currentSection = js ''hero'', headerActions = None,
       menuToggle = Some [js ''menu-toggle''], sections = [], body_overflow = js ''''\<rparr> =
     Throw TypeError
       \<lparr>mobileMenuOpen = True, currentSection = js ''hero'', headerActions = None,
         menuToggle = Some [js ''menu-toggle''], sections = [], body_overflow = js ''''\<rparr> \<and>
   dispatch CONFIG (Resize 1024)
     \<lparr>mobileMenuOpen = True, currentSection = js ''hero'', headerActions = None,
       menuToggle = Some [js ''menu-toggle''], sections = [], body_overflow = js ''''\<rparr> =
     Throw TypeError
       \<lparr>mobileMenuOpen = False, currentSection = js ''hero'', headerActions = None,
         menuToggle = Some [js ''menu-toggle''], sections = [], body_overflow = js ''''\<rparr>"
  by (simp add: toggleMobileMenu_def handleResize_def CONFIG_def)

section \<open>Initialization catches and logs\<close>

lemma run_steps_all_fine:
  "\<forall>x\<in>set xs. step_outcome cfg env x = None \<Longrightarrow>
   run_steps cfg env xs s = Normal (s\<lparr>steps_done := steps_done s @ xs\<rparr>)"
  by (induction xs arbitrary: s) (simp_all add: run_step_def)

lemma run_steps_first_throw:
  assumes "\<forall>x\<in>set pre. step_outcome cfg env x = None" and "step_outcome cfg env k = Some e"
  shows "run_steps cfg env (pre @ k # post) s = Throw e (s\<lparr>steps_done := steps_done s @ pre\<rparr>)"
  using assms by (induction pre arbitrary: s) (simp_all add: run_step_def)

lemma init_returns: "utils_defined env \<Longrightarrow> \<not> throws (init cfg env s)"
  by (simp add: init_def logError_def throws_def split: completion.splits)

text \<open>
  Claim C8, as the code has it. The global \<open>Utils\<close> is defined. Then \<open>init\<close> always
  returns normally. When every statement of the \<open>try\<close> block succeeds they all run and
  nothing is logged. When one of them is the first to throw, the statements before it
  have run, it and the statements after it have not, and one line
  \<open>[KELAH Error] Initialization failed\<close> is logged with the exception.
\<close>

theorem init_catches_and_logs:
  assumes "utils_defined env"
  shows "\<not> throws (init cfg env s) \<and>
   ((\<forall>x\<in>set (try_block cfg). step_throws env x = None) \<longrightarrow>
      init cfg env s = Normal (s\<lparr>steps_done := steps_done s @ try_block cfg\<rparr>)) \<and>
   (try_block cfg = pre @ k # post \<and> (\<forall>x\<in>set pre. step_throws env x = None) \<and>
    step_throws env k = Some e \<longrightarrow>
      init cfg env s =
        Normal (s\<lparr>steps_done := steps_done s @ pre,
                  console_error := console_error s @
                    [(js ''[KELAH Error] Initialization failed'', Some e)]\<rparr>))"
proof -
  have outcome: "step_outcome cfg env x = step_throws env x" for x
    using assms by (simp add: step_outcome_def)
  have "init cfg env s =
      Normal (s\<lparr>steps_done := steps_done s @ pre,
                console_error := console_error s @
                  [(js ''[KELAH Error] Initialization failed'', Some e)]\<rparr>)"
    if "try_block cfg = pre @ k # post" and "\<forall>x\<in>set pre. step_throws env x = None"
      and "step_throws env k = Some e"
    using run_steps_first_throw [of pre cfg env k e post s] that assms
    by (simp add: init_def logError_def js_def outcome)
  then show ?thesis
    using init_returns [OF assms, of cfg s] run_steps_all_fine [of "try_block cfg" cfg env s]
    by (auto simp add: init_def outcome)
qed

theorem init_catches_and_logs_witness:
  "utils_defined sound_env \<and> utils_defined no_observer_env \<and>
   init CONFIG sound_env \<lparr>steps_done = [], console_error = []\<rparr> =
     Normal \<lparr>steps_done =
        [CacheDOMElements, InitEventListeners, AnimationsInit, UpdateContactLinks,
         LazyLoadImages, RemoveLoadingClass, LogLoaded],
      console_error = []\<rparr> \<and>
   try_block CONFIG =
     [CacheDOMElements, InitEventListeners] @ AnimationsInit #
     [UpdateContactLinks, LazyLoadImages, RemoveLoadingClass, LogLoaded] \<and>
   step_throws no_observer_env CacheDOMElements = None \<and>
   step_throws no_observer_env InitEventListeners = None \<and>
   step_throws no_observer_env AnimationsInit = Some ReferenceError \<and>
   init CONFIG no_observer_env \<lparr>steps_done = [], console_error = []\<rparr> =
     Normal \<lparr>steps_done = [CacheDOMElements, InitEventListeners],
      console_error = [(js ''[KELAH Error] Initialization failed'', Some ReferenceError)]\<rparr>"
proof -
  let ?s = "\<lparr>steps_done = [], console_error = []\<rparr>"
  have block: "try_block CONFIG =
     [CacheDOMElements, InitEventListeners] @ AnimationsInit #
     [UpdateContactLinks, LazyLoadImages, RemoveLoadingClass, LogLoaded]"
    by (simp add: try_block_def CONFIG_def)
  have env: "utils_defined sound_env" "utils_defined no_observer_env"
    "\<forall>x. step_throws sound_env x = None"
    "(\<forall>x\<in>set [CacheDOMElements, InitEventListeners]. step_throws no_observer_env x = None) \<and>
      step_throws no_observer_env AnimationsInit = Some ReferenceError"
    by (simp_all add: sound_env_def no_observer_env_def no_throw_def no_observer_def)
  have "init CONFIG sound_env ?s = Normal (?s\<lparr>steps_done := steps_done ?s @ try_block CONFIG\<rparr>)"
    using init_catches_and_logs [of sound_env CONFIG ?s] env(1,3) by simp
  moreover have "init CONFIG no_observer_env ?s =
      Normal (?s\<lparr>steps_done := steps_done ?s @ [CacheDOMElements, InitEventListeners],
                console_error := console_error ?s @
                  [(js ''[KELAH Error] Initialization failed'', Some ReferenceError)]\<rparr>)"
    using init_catches_and_logs [of no_observer_env CONFIG ?s
        "[CacheDOMElements, InitEventListeners]" AnimationsInit
        "[UpdateContactLinks, LazyLoadImages, RemoveLoadingClass, LogLoaded]" ReferenceError]
      block env(2,4)
    by simp
  ultimately show ?thesis
    using block env by simp
qed

text \<open>
  The claim as worded, for any exception, fails when the exception comes from the
  global \<open>Utils\<close> being undefined: element caching throws a \<open>ReferenceError\<close>, the
  \<open>catch\<close> block throws another at \<open>Utils.logError\<close>, and that one leaves \<open>init\<close> with
  nothing logged.
\<close>

theorem init_counterexample:
  "init CONFIG no_utils_env \<lparr>steps_done = [], console_error = []\<rparr> =
     Throw ReferenceError \<lparr>steps_done = [], console_error = []\<rparr>"
  by (simp add: init_def try_block_def CONFIG_def run_step_def step_outcome_def names_Utils_def
      logError_def no_utils_env_def)

section \<open>Notifications: one node in, the same node out after 3300 ms\<close>

lemma pending_for_pop: "pending_for c (pop_timer x q) = remove1 x (pending_for c q)"
  by (simp add: pending_for_def pop_timer_def filter_remove1)

lemma pending_for_setTimeout:
  "pending_for c (snd (setTimeout cb d now q)) =
     pending_for c q @
       (if cb = c then [\<lparr>handle = next_handle q, due = now + timer_delay d, callback = cb\<rparr>]
        else [])"
  by (simp add: pending_for_def setTimeout_def)

lemma notif_delays [simp]: "timer_delay 3000 = 3000" "timer_delay 300 = 300"
  by (simp_all add: timer_delay_def)

lemma in_pending_for: "x \<in> set (pending_for c q) \<longleftrightarrow> x \<in> set (pending q) \<and> callback x = c"
  by (auto simp add: pending_for_def)

lemma notif_exec_BeginExit:
  "callback x = BeginExit i \<Longrightarrow>
   notif_exec x (d, q) =
     (d\<lparr>body_children := map (set_animation i (js ''slideOut 0.3s ease-out'')) (body_children d)\<rparr>,
      snd (setTimeout (RemoveNode i) 300 (due x) q))"
  by (simp add: setTimeout_def)

lemma notif_exec_RemoveNode:
  "callback x = RemoveNode i \<Longrightarrow>
   notif_exec x (d, q) = (d\<lparr>body_children := filter (\<lambda>n. node_id n \<noteq> i) (body_children d)\<rparr>, q)"
  by simp

declare notif_exec.simps [simp del]

lemma node_id_set_animation: "node_id (set_animation i v n) = node_id n"

  by (simp add: set_animation_def)

lemma in_document_set_animation:
  "in_document k (d\<lparr>body_children := map (set_animation i v) (body_children d)\<rparr>) = in_document k d"
  by (simp add: in_document_def image_image node_id_set_animation)

lemma in_document_filter:
  "in_document k (d\<lparr>body_children := filter (\<lambda>n. node_id n \<noteq> i) (body_children d)\<rparr>) =
     (in_document k d \<and> k \<noteq> i)"
  by (auto simp add: in_document_def)

lemma remove1_single: "length xs = 1 \<Longrightarrow> x \<in> set xs \<Longrightarrow> remove1 x xs = []"
  by (cases xs) auto

lemma notif_fire_displayed:
  assumes "displayed k t0 (d, q)" and "x \<in> set (pending q)"
  shows "displayed k t0 (notif_exec x (d, pop_timer x q)) \<or>
         leaving k t0 (notif_exec x (d, pop_timer x q))"
proof (cases "callback x")
  case (BeginExit i)
  show ?thesis
  proof (cases "i = k")
    case True
    with BeginExit assms have mem: "x \<in> set (pending_for (BeginExit k) q)"
      by (simp add: in_pending_for)
    with assms(1) have "due x = t0 + 3000"
      by (simp add: displayed_def)
    moreover from mem assms(1) have "remove1 x (pending_for (BeginExit k) q) = []"
      by (simp add: displayed_def remove1_single)
    ultimately have "leaving k t0 (notif_exec x (d, pop_timer x q))"
      using assms(1) BeginExit True
      by (simp add: notif_exec_BeginExit leaving_def displayed_def in_document_set_animation
          pending_for_setTimeout pending_for_pop)
    then show ?thesis ..
  next
    case False
    with BeginExit have "x \<notin> set (pending_for (BeginExit k) q)"
      by (simp add: in_pending_for)
    then have "remove1 x (pending_for (BeginExit k) q) = pending_for (BeginExit k) q"
      by (simp add: remove1_idem)
    then have "displayed k t0 (notif_exec x (d, pop_timer x q))"
      using assms(1) BeginExit False
      by (simp add: notif_exec_BeginExit displayed_def in_document_set_animation
          pending_for_setTimeout pending_for_pop)
    then show ?thesis ..
  qed
next
  case (RemoveNode i)
  with assms have ne: "i \<noteq> k"
    by (auto simp add: displayed_def pending_for_def filter_empty_conv)
  from RemoveNode have "x \<notin> set (pending_for (BeginExit k) q)"
    by (simp add: in_pending_for)
  then have "remove1 x (pending_for (BeginExit k) q) = pending_for (BeginExit k) q"
    by (simp add: remove1_idem)
  then have "displayed k t0 (notif_exec x (d, pop_timer x q))"
    using assms(1) RemoveNode ne
    by (simp add: notif_exec_RemoveNode displayed_def in_document_filter pending_for_pop)
  then show ?thesis ..
qed

lemma notif_fire_leaving:
  assumes "leaving k t0 (d, q)" and "x \<in> set (pending q)"
  shows "leaving k t0 (notif_exec x (d, pop_timer x q)) \<or>
         (gone k (notif_exec x (d, pop_timer x q)) \<and> due x = t0 + 3300)"
proof (cases "callback x")
  case (BeginExit i)
  with assms have ne: "i \<noteq> k"
    by (auto simp add: leaving_def pending_for_def filter_empty_conv)
  from BeginExit have "x \<notin> set (pending_for (RemoveNode k) q)"
    by (simp add: in_pending_for)
  then have "remove1 x (pending_for (RemoveNode k) q) = pending_for (RemoveNode k) q"
    by (simp add: remove1_idem)
  then have "leaving k t0 (notif_exec x (d, pop_timer x q))"
    using assms(1) BeginExit ne
    by (simp add: notif_exec_BeginExit leaving_def in_document_set_animation
        pending_for_setTimeout pending_for_pop)
  then show ?thesis ..
next
  case (RemoveNode i)
  show ?thesis
  proof (cases "i = k")
    case True
    with RemoveNode assms have mem: "x \<in> set (pending_for (RemoveNode k) q)"
      by (simp add: in_pending_for)
    with assms(1) have "due x = t0 + 3300"
      by (simp add: leaving_def)
    moreover from mem assms(1) have "remove1 x (pending_for (RemoveNode k) q) = []"
      by (simp add: leaving_def remove1_single)
    ultimately have "gone k (notif_exec x (d, pop_timer x q)) \<and> due x = t0 + 3300"
      using assms(1) RemoveNode True
      by (simp add: notif_exec_RemoveNode leaving_def gone_def in_document_filter pending_for_pop)
    then show ?thesis ..
  next
    case False
    with RemoveNode have "x \<notin> set (pending_for (RemoveNode k) q)"
      by (simp add: in_pending_for)
    then have "remove1 x (pending_for (RemoveNode k) q) = pending_for (RemoveNode k) q"
      by (simp add: remove1_idem)
    then have "leaving k t0 (notif_exec x (d, pop_timer x q))"
      using assms(1) RemoveNode False
      by (simp add: notif_exec_RemoveNode leaving_def in_document_filter pending_for_pop)
    then show ?thesis ..
  qed
qed

lemma notif_fire_gone:
  assumes "gone k (d, q)" and "x \<in> set (pending q)"
  shows "gone k (notif_exec x (d, pop_timer x q))"
proof (cases "callback x")
  case (BeginExit i)
  with assms have "i \<noteq> k"
    by (auto simp add: gone_def pending_for_def filter_empty_conv)
  with assms(1) BeginExit show ?thesis
    by (simp add: notif_exec_BeginExit gone_def in_document_set_animation
        pending_for_setTimeout pending_for_pop)
next
  case (RemoveNode i)
  with assms(1) show ?thesis
    by (simp add: notif_exec_RemoveNode gone_def in_document_filter pending_for_pop)
qed

lemma notif_rank_simps: "notif_rank (BeginExit i) = 2" "notif_rank (RemoveNode i) = 1"
  by (simp_all add: notif_rank_def)

lemma notif_fire_measure:
  assumes "x \<in> set (pending q)"
  shows "notif_measure (notif_exec x (d, pop_timer x q)) < notif_measure (d, q)"
proof -
  let ?r = "\<lambda>y. notif_rank (callback y)"
  have split: "sum_list (map ?r (pending q)) = ?r x + sum_list (map ?r (remove1 x (pending q)))"
    using assms by (simp add: sum_list_map_remove1)
  show ?thesis
  proof (cases "callback x")
    case (BeginExit i)
    then have "notif_measure (notif_exec x (d, pop_timer x q)) =
        sum_list (map ?r (remove1 x (pending q))) + 1"
      by (simp add: notif_exec_BeginExit notif_measure_def setTimeout_def pop_timer_def
          notif_rank_simps)
    moreover have "?r x = 2"
      using BeginExit by (simp add: notif_rank_simps)
    ultimately show ?thesis
      using split by (simp add: notif_measure_def)
  next
    case (RemoveNode i)
    then have "notif_measure (notif_exec x (d, pop_timer x q)) =
        sum_list (map ?r (remove1 x (pending q)))"
      by (simp add: notif_exec_RemoveNode notif_measure_def pop_timer_def)
    moreover have "?r x = 1"
      using RemoveNode by (simp add: notif_rank_simps)
    ultimately show ?thesis
      using split by (simp add: notif_measure_def)
  qed
qed

lemma notif_fire_life:
  assumes "notif_life k t0 st" and x: "x \<in> set (pending (snd st))"
  shows "notif_life k t0 (notif_exec x (fst st, pop_timer x (snd st))) \<and>
         notif_measure (notif_exec x (fst st, pop_timer x (snd st))) < notif_measure st"
proof -
  have "notif_life k t0 (notif_exec x (fst st, pop_timer x (snd st)))"
    using assms(1) notif_fire_displayed [of k t0 "fst st" "snd st" x]
      notif_fire_leaving [of k t0 "fst st" "snd st" x]
      notif_fire_gone [of k "fst st" "snd st" x] x
    by (auto simp add: notif_life_def)
  with notif_fire_measure [OF x, of "fst st"] show ?thesis
    by simp
qed

lemma notif_fire_alive:
  assumes "notif_alive k t0 st" and x: "x \<in> set (pending (snd st))" and "due x \<le> t"
    and "t < t0 + 3300"
  shows "notif_alive k t0 (notif_exec x (fst st, pop_timer x (snd st))) \<and>
         notif_measure (notif_exec x (fst st, pop_timer x (snd st))) < notif_measure st"
proof -
  from assms(3,4) have "due x \<noteq> t0 + 3300"
    by simp
  then have "notif_alive k t0 (notif_exec x (fst st, pop_timer x (snd st)))"
    using assms(1) notif_fire_displayed [of k t0 "fst st" "snd st" x]
      notif_fire_leaving [of k t0 "fst st" "snd st" x] x
    by (auto simp add: notif_alive_def)
  with notif_fire_measure [OF x, of "fst st"] show ?thesis
    by simp
qed

lemma showNotification_unfold:
  "showNotification now message type st =
     ((fst st)\<lparr>body_children := body_children (fst st) @
          [new_notification (next_node (fst st)) message
             (case type of None \<Rightarrow> js ''info'' | Some s \<Rightarrow> s)],
        next_node := Suc (next_node (fst st))\<rparr>,
      snd (setTimeout (BeginExit (next_node (fst st))) 3000 now (snd st)))"
  by (simp add: showNotification_def new_notification_def setTimeout_def)

lemma showNotification_displayed:
  assumes "notif_wf st"
  shows "displayed (next_node (fst st)) t0 (showNotification t0 message type st)"
proof -
  have "callback x \<noteq> BeginExit (next_node (fst st)) \<and>
        callback x \<noteq> RemoveNode (next_node (fst st))"
    if "x \<in> set (pending (snd st))" for x
    using assms that by (auto simp add: notif_wf_def captured_def)
  then have "pending_for (BeginExit (next_node (fst st))) (snd st) = []"
    and "pending_for (RemoveNode (next_node (fst st))) (snd st) = []"
    by (simp_all add: pending_for_def filter_empty_conv)
  then show ?thesis
    by (simp add: showNotification_unfold displayed_def in_document_def pending_for_setTimeout
        new_notification_def)
qed

lemma showNotification_keeps:
  shows "displayed k t0 st \<Longrightarrow> displayed k t0 (showNotification now message type st)"
    and "leaving k t0 st \<Longrightarrow> leaving k t0 (showNotification now message type st)"
    and "gone k st \<Longrightarrow> gone k (showNotification now message type st)"
  by (auto simp add: showNotification_unfold displayed_def leaving_def gone_def in_document_def
      pending_for_setTimeout new_notification_def)

lemma in_pending_due:
  assumes "length (pending_for c q) = 1" and "\<forall>x\<in>set (pending_for c q). due x = t"
  shows "\<exists>x\<in>set (pending q). due x = t"
proof -
  from assms(1) obtain x where "x \<in> set (pending_for c q)"
    by (cases "pending_for c q") auto
  with assms(2) show ?thesis
    by (auto simp add: in_pending_for)
qed

lemma notif_settled:
  assumes "notif_life k t0 st" and late: "\<forall>x\<in>set (pending (snd st)). T < due x"
    and "t0 + 3300 \<le> T"
  shows "gone k st"
proof -
  have "\<not> displayed k t0 st"
  proof
    assume "displayed k t0 st"
    then have "\<exists>x\<in>set (pending (snd st)). due x = t0 + 3000"
      by (intro in_pending_due [of "BeginExit k"]) (simp_all add: displayed_def)
    with late assms(3) show False by auto
  qed
  moreover have "\<not> leaving k t0 st"
  proof
    assume "leaving k t0 st"
    then have "\<exists>x\<in>set (pending (snd st)). due x = t0 + 3300"
      by (intro in_pending_due [of "RemoveNode k"]) (simp_all add: leaving_def)
    with late assms(3) show False by auto
  qed
  ultimately show ?thesis
    using assms(1) by (simp add: notif_life_def)
qed

lemma notif_session_late:
  assumes "notif_wf st" and "t0 + 3300 \<le> T"
  shows "\<exists>st'. notif_session t0 message type later T st = Some st' \<and>
           \<not> in_document (next_node (fst st)) (fst st')"
proof -
  let ?k = "next_node (fst st)"
  have "notif_life ?k t0 (showNotification t0 message type st)"
    using showNotification_displayed [OF assms(1)] by (simp add: notif_life_def)
  then have "\<exists>st1. run_calls notif_exec notif_handler t0 later
      (showNotification t0 message type st) = Some st1 \<and> notif_life ?k t0 st1"
  proof (rule run_calls_rule [where m = notif_measure])
    fix t s x
    assume "notif_life ?k t0 s" and "x \<in> set (pending (snd s))"
    then show "notif_life ?k t0 (notif_exec x (fst s, pop_timer x (snd s))) \<and>
        notif_measure (notif_exec x (fst s, pop_timer x (snd s))) < notif_measure s"
      by (rule notif_fire_life)
  next
    fix t ev s
    assume "notif_life ?k t0 s"
    then show "notif_life ?k t0 (notif_handler t ev s)"
      by (auto simp add: notif_life_def notif_handler_def intro: showNotification_keeps)
  qed
  then obtain st1 where st1: "run_calls notif_exec notif_handler t0 later
      (showNotification t0 message type st) = Some st1" "notif_life ?k t0 st1"
    by auto
  from st1(2) have "\<exists>st'. run_timers notif_exec T st1 = Some st' \<and> notif_life ?k t0 st' \<and>
      (\<forall>x\<in>set (pending (snd st')). T < due x)"
  proof (rule run_timers_rule [where m = notif_measure])
    fix s x
    assume "notif_life ?k t0 s" and "x \<in> set (pending (snd s))"
    then show "notif_life ?k t0 (notif_exec x (fst s, pop_timer x (snd s))) \<and>
        notif_measure (notif_exec x (fst s, pop_timer x (snd s))) < notif_measure s"
      by (rule notif_fire_life)
  qed
  then obtain st' where st': "run_timers notif_exec T st1 = Some st'" "notif_life ?k t0 st'"
      "\<forall>x\<in>set (pending (snd st')). T < due x"
    by auto
  from notif_settled [OF st'(2,3) assms(2)] have "\<not> in_document ?k (fst st')"
    by (simp add: gone_def)
  with st1(1) st'(1) show ?thesis
    by (simp add: notif_session_def)
qed

lemma notif_session_early:
  assumes "notif_wf st" and "T < t0 + 3300" and "\<forall>t\<in>set (task_times later). t \<le> T"
  shows "\<exists>st'. notif_session t0 message type later T st = Some st' \<and>
           in_document (next_node (fst st)) (fst st')"
proof -
  let ?k = "next_node (fst st)"
  have "notif_alive ?k t0 (showNotification t0 message type st)"
    using showNotification_displayed [OF assms(1)] by (simp add: notif_alive_def)
  then have "\<exists>st1. run_calls notif_exec notif_handler t0 later
      (showNotification t0 message type st) = Some st1 \<and> notif_alive ?k t0 st1"
  proof (rule run_calls_rule [where m = notif_measure])
    fix t s x
    assume "t \<in> set (task_times later)" and "notif_alive ?k t0 s"
      and "x \<in> set (pending (snd s))" and "due x \<le> t"
    moreover from this(1) assms(2,3) have "t < t0 + 3300"
      by auto
    ultimately show "notif_alive ?k t0 (notif_exec x (fst s, pop_timer x (snd s))) \<and>
        notif_measure (notif_exec x (fst s, pop_timer x (snd s))) < notif_measure s"
      by (intro notif_fire_alive)
  next
    fix t ev s
    assume "notif_alive ?k t0 s"
    then show "notif_alive ?k t0 (notif_handler t ev s)"
      by (auto simp add: notif_alive_def notif_handler_def intro: showNotification_keeps)
  qed
  then obtain st1 where st1: "run_calls notif_exec notif_handler t0 later
      (showNotification t0 message type st) = Some st1" "notif_alive ?k t0 st1"
    by auto
  from st1(2) have "\<exists>st'. run_timers notif_exec T st1 = Some st' \<and> notif_alive ?k t0 st' \<and>
      (\<forall>x\<in>set (pending (snd st')). T < due x)"
  proof (rule run_timers_rule [where m = notif_measure])
    fix s x
    assume "notif_alive ?k t0 s" and "x \<in> set (pending (snd s))" and "due x \<le> T"
    with assms(2) show "notif_alive ?k t0 (notif_exec x (fst s, pop_timer x (snd s))) \<and>
        notif_measure (notif_exec x (fst s, pop_timer x (snd s))) < notif_measure s"
      by (intro notif_fire_alive)
  qed
  then obtain st' where st': "run_timers notif_exec T st1 = Some st'" "notif_alive ?k t0 st'"
    by auto
  from st'(2) have "in_document ?k (fst st')"
    by (auto simp add: notif_alive_def displayed_def leaving_def)
  with st1(1) st'(1) show ?thesis
    by (simp add: notif_session_def)
qed

text \<open>
  Well-formedness is no restriction: the empty page is well formed, and showing a
  notification or running a timer keeps a page well formed.
\<close>

lemma notif_wf_empty_page: "notif_wf empty_page"
  by (simp add: notif_wf_def empty_page_def)

lemma notif_wf_showNotification:
  "notif_wf st \<Longrightarrow> notif_wf (showNotification now message type st)"
  by (auto simp add: notif_wf_def showNotification_unfold setTimeout_def new_notification_def
      captured_def less_Suc_eq)

lemma notif_wf_fire:
  assumes "notif_wf st" and "x \<in> set (pending (snd st))"
  shows "notif_wf (notif_exec x (fst st, pop_timer x (snd st)))"
proof (cases "callback x")
  case (BeginExit i)
  with assms have "i < next_node (fst st)"
    by (auto simp add: notif_wf_def captured_def)
  with assms(1) BeginExit show ?thesis
    by (auto simp add: notif_wf_def notif_exec_BeginExit setTimeout_def pop_timer_def
        node_id_set_animation captured_def dest: notin_set_remove1)
next
  case (RemoveNode i)
  with assms(1) show ?thesis
    by (auto simp add: notif_wf_def notif_exec_RemoveNode pop_timer_def dest: notin_set_remove1)
qed

text \<open>
  Claim C7. On a well-formed page, a call of \<open>showNotification\<close> at time \<open>t0\<close> appends
  exactly one new element to the body, whose text is the message and whose background,
  for the type \<open>success\<close>, is \<open>#27AE60\<close>. Whatever further notifications are shown
  meanwhile, in the same task or in later ones, once the clock has reached \<open>T\<close> the
  element is still in the document when \<open>T\<close> is before \<open>t0 + 3300\<close> and is no longer in
  it when \<open>T\<close> is \<open>t0 + 3300\<close> or later (3000 ms of display and 300 ms of exit
  transition).
\<close>

theorem notification_inserted_then_removed:
  assumes "notif_wf st" and "\<forall>t\<in>set (task_times later). t0 \<le> t \<and> t \<le> T"
  shows "body_children (fst (showNotification t0 message type st)) =
           body_children (fst st) @
             [new_notification (next_node (fst st)) message
                (case type of None \<Rightarrow> js ''info'' | Some s \<Rightarrow> s)] \<and>
         \<not> in_document (next_node (fst st)) (fst st) \<and>
         textContent (new_notification (next_node (fst st)) message
            (case type of None \<Rightarrow> js ''info'' | Some s \<Rightarrow> s)) = message \<and>
         background_css (cssText (new_notification (next_node (fst st)) message (js ''success''))) =
           js ''#27AE60'' \<and>
         (\<exists>st'. notif_session t0 message type later T st = Some st' \<and>
            (in_document (next_node (fst st)) (fst st') \<longleftrightarrow> T < t0 + 3300))"
proof -
  have fresh: "\<not> in_document (next_node (fst st)) (fst st)"
    using assms(1) by (auto simp add: notif_wf_def in_document_def)
  have "\<exists>st'. notif_session t0 message type later T st = Some st' \<and>
      (in_document (next_node (fst st)) (fst st') \<longleftrightarrow> T < t0 + 3300)"
  proof (cases "T < t0 + 3300")
    case True
    with notif_session_early [OF assms(1) True, of later message type] assms(2)
    show ?thesis by auto
  next
    case False
    with notif_session_late [OF assms(1), of t0 T message type later]
    show ?thesis by auto
  qed
  with fresh show ?thesis
    by (simp add: showNotification_unfold new_notification_def)
qed

theorem notification_inserted_then_removed_witness:
  "notif_wf empty_page \<and>
   task_times [SameTask (js ''Also'', None), NewTask 1000 False (js ''Sent'', None :: jsstring option)] =
     [1000] \<and>
   (\<exists>st'. notif_session 0 (js ''Saved'') (Some (js ''success''))
             [SameTask (js ''Also'', None), NewTask 1000 False (js ''Sent'', None)] 3300
             empty_page = Some st' \<and>
      \<not> in_document (next_node (fst empty_page)) (fst st')) \<and>
   (\<exists>st'. notif_session 0 (js ''Saved'') (Some (js ''success''))
             [SameTask (js ''Also'', None), NewTask 1000 False (js ''Sent'', None)] 3299
             empty_page = Some st' \<and>
      in_document (next_node (fst empty_page)) (fst st'))"
  using notif_wf_empty_page
    notification_inserted_then_removed [of empty_page
      "[SameTask (js ''Also'', None), NewTask 1000 False (js ''Sent'', None)]" 0 3300
      "js ''Saved''" "Some (js ''success'')"]
    notification_inserted_then_removed [of empty_page
      "[SameTask (js ''Also'', None), NewTask 1000 False (js ''Sent'', None)]" 0 3299
      "js ''Saved''" "Some (js ''success'')"]
  by simp

text \<open>
  Claim C9. The background of the element that \<open>showNotification\<close> appends is the green
  \<open>#27AE60\<close> exactly when the type is \<open>success\<close>; for every other type, and when the type
  is omitted (it then defaults to \<open>info\<close>), it is the red \<open>#E74C3C\<close>. So \<open>error\<close>,
  \<open>warning\<close> and \<open>info\<close> get the same colour.
\<close>

theorem notification_color_success_only:
  "(background_css (cssText (last (body_children (fst (showNotification now message type st))))) =
      js ''#27AE60'' \<longleftrightarrow> type = Some (js ''success'')) \<and>
   (type \<noteq> Some (js ''success'') \<longrightarrow>
      background_css (cssText (last (body_children (fst (showNotification now message type st))))) =
        js ''#E74C3C'') \<and>
   background_css (cssText (last (body_children
      (fst (showNotification now message (Some (js ''error'')) st))))) = js ''#E74C3C'' \<and>
   background_css (cssText (last (body_children
     (fst (showNotification now message (Some (js ''warning'')) st))))) = js ''#E74C3C'' \<and>
   background_css (cssText (last (body_children
     (fst (showNotification now message (Some (js ''info'')) st))))) = js ''#E74C3C''"
proof -
  have colours: "js ''#27AE60'' \<noteq> js ''#E74C3C''"
    and types: "js ''info'' \<noteq> js ''success''" "js ''error'' \<noteq> js ''success''"
      "js ''warning'' \<noteq> js ''success''"
    by (simp_all add: js_def)
  show ?thesis
    using colours types
    by (cases type) (simp_all add: showNotification_unfold new_notification_def)
qed

theorem notification_color_success_only_witness:
  "Some (js ''warning'') \<noteq> Some (js ''success'') \<and>
   background_css (cssText (last (body_children
     (fst (showNotification 0 (js ''Low stock'') (Some (js ''warning'')) empty_page))))) =
     js ''#E74C3C'' \<and>
   background_css (cssText (last (body_children
     (fst (showNotification 0 (js ''Saved'') (Some (js ''success'')) empty_page))))) =
     js ''#27AE60''"
proof -
  have ne: "js ''warning'' \<noteq> js ''success''"
    by (simp add: js_def)
  show ?thesis
    using ne
      notification_color_success_only [of 0 "js ''Low stock''" "Some (js ''warning'')" empty_page]
      notification_color_success_only [of 0 "js ''Saved''" "Some (js ''success'')" empty_page]
    by simp
qed

section \<open>Scroll reveal: each watched element is revealed once\<close>

subsection \<open>Initialization\<close>

lemma fold_reveal_hide:
  "styles (fold reveal_hide es p) el =
     (if el \<in> set es
      then \<lparr>opacity = js ''0'', transform = js ''translateY(30px)'',
            transition = js ''opacity 0.6s ease-out, transform 0.6s ease-out''\<rparr>
      else styles p el) \<and>
   reveal_targets (fold reveal_hide es p) = reveal_targets p \<and>
   product_targets (fold reveal_hide es p) = product_targets p \<and>
   revealed_log (fold reveal_hide es p) = revealed_log p"
  by (induction es arbitrary: p) (simp_all add: reveal_hide_def)

lemma fold_stagger_hide:
  "styles (fold stagger_hide cs p) el =
     (if el \<in> set cs
      then \<lparr>opacity = js ''0'', transform = js ''translateY(40px) scale(0.95)'',
            transition = js ''all 0.6s cubic-bezier(0.4, 0, 0.2, 1)''\<rparr>
      else styles p el) \<and>
   reveal_targets (fold stagger_hide cs p) = reveal_targets p \<and>
   product_targets (fold stagger_hide cs p) = product_targets p \<and>
   revealed_log (fold stagger_hide cs p) = revealed_log p"
  by (induction cs arbitrary: p) (simp_all add: stagger_hide_def)

lemma set_fold_observe: "set (fold observe es ts) = set ts \<union> set es"
  by (induction es arbitrary: ts) (auto simp add: observe_def)

lemma anim_start_facts:
  assumes "scrollReveal_enabled cfg" and "el \<in> set (revealElements pg)"
  shows "watching el (anim_start cfg pg styles0)"
    and "set (reveal_targets (fst (anim_start cfg pg styles0))) = set (revealElements pg)"
    and "unstaggered pg el (anim_start cfg pg styles0)"
proof -
  let ?p0 = "\<lparr>styles = styles0, reveal_targets = [], product_targets = [], revealed_log = []\<rparr>"
  let ?p1 = "initScrollReveal pg ?p0"
  let ?p2 = "initProductStagger pg ?p1"
  have p1: "styles ?p1 el = \<lparr>opacity = js ''0'', transform = js ''translateY(30px)'',
        transition = js ''opacity 0.6s ease-out, transform 0.6s ease-out''\<rparr>"
    "set (reveal_targets ?p1) = set (revealElements pg)" "revealed_log ?p1 = []"
    using assms(2) by (simp_all add: initScrollReveal_def Let_def fold_reveal_hide set_fold_observe)
  have p2: "styles ?p2 el = hidden_style pg el" "reveal_targets ?p2 = reveal_targets ?p1"
    "revealed_log ?p2 = []"
    using p1(1,3)
    by (simp_all add: initProductStagger_def Let_def fold_stagger_hide hidden_style_def
        split: option.splits)
  have start: "anim_start cfg pg styles0 = (?p2, \<lparr>next_handle = 1, pending = []\<rparr>)"
    using assms(1) by (simp add: anim_start_def Animations_init_def)
  show "watching el (anim_start cfg pg styles0)"
    using p1(2) p2 assms(2) by (simp add: start watching_def anim_pending_for_def)
  show "set (reveal_targets (fst (anim_start cfg pg styles0))) = set (revealElements pg)"
    using p1(2) p2(2) by (simp add: start)
  show "unstaggered pg el (anim_start cfg pg styles0)"
    using p2 by (simp add: start unstaggered_def anim_pending_for_def)
qed

subsection \<open>The observer callbacks\<close>

lemma anim_pending_for_setTimeout:
  "anim_pending_for c (snd (setTimeout cb d now q)) =
     anim_pending_for c q @
       (if cb = c then [\<lparr>handle = next_handle q, due = now + timer_delay d, callback = cb\<rparr>]
        else [])"
  by (simp add: anim_pending_for_def setTimeout_def)

lemma reveal_entries_frame:
  "styles (fst (reveal_entries now i es st)) = styles (fst st) \<and>
   revealed_log (fst (reveal_entries now i es st)) = revealed_log (fst st) \<and>
   anim_pending_for (StaggerShow c) (snd (reveal_entries now i es st)) =
     anim_pending_for (StaggerShow c) (snd st)"
  by (induction es arbitrary: i st) (simp_all add: anim_pending_for_setTimeout)

lemma reveal_entries_targets:
  "set (reveal_targets (fst (reveal_entries now i es st))) =
     set (reveal_targets (fst st)) - {t. (t, True) \<in> set es}"
proof (induction es arbitrary: i st)
  case Nil
  then show ?case by simp
next
  case (Cons entry rest)
  obtain t b where entry: "entry = (t, b)" by (cases entry)
  show ?case
    by (cases b) (auto simp add: Cons.IH entry unobserve_def)
qed

lemma reveal_entries_pending_absent:
  "(el, True) \<notin> set es \<Longrightarrow>
   anim_pending_for (RevealShow el) (snd (reveal_entries now i es st)) =
     anim_pending_for (RevealShow el) (snd st)"
proof (induction es arbitrary: i st)
  case Nil
  then show ?case by simp
next
  case (Cons entry rest)
  obtain t b where entry: "entry = (t, b)" by (cases entry)
  from Cons.prems have "(el, True) \<notin> set rest" and "\<not> (t = el \<and> b)"
    by (auto simp add: entry)
  then show ?case
    by (simp add: Cons.IH entry anim_pending_for_setTimeout)
qed

text \<open>The entry at index \<open>i\<close> of the batch sets its timer for \<open>i * 100\<close> ms after the batch.\<close>

lemma reveal_entries_pending_exact:
  assumes "(el, True) \<in> set es" and "count_list es (el, True) \<le> 1"
  shows "\<exists>h. anim_pending_for (RevealShow el) (snd (reveal_entries now i es st)) =
            anim_pending_for (RevealShow el) (snd st) @
              [\<lparr>handle = h, due = now + timer_delay ((i + index_of (el, True) es) * 100),
                callback = RevealShow el\<rparr>]"
  using assms
proof (induction es arbitrary: i st)
  case Nil
  then show ?case by simp
next
  case (Cons entry rest)
  show ?case
  proof (cases "entry = (el, True)")
    case True
    with Cons.prems(2) have "count_list rest (el, True) = 0"
      by simp
    then have "(el, True) \<notin> set rest"
      by (simp add: count_list_0_iff)
    then show ?thesis
      using True
      by (simp add: reveal_entries_pending_absent anim_pending_for_setTimeout)
  next
    case False
    with Cons.prems have mem: "(el, True) \<in> set rest" and once: "count_list rest (el, True) \<le> 1"
      by auto
    let ?st = "if snd entry
      then ((fst st)\<lparr>reveal_targets := unobserve (fst entry) (reveal_targets (fst st))\<rparr>,
        snd (setTimeout (RevealShow (fst entry)) (i * 100) now (snd st)))
      else st"
    from Cons.IH [OF mem once, of "Suc i" ?st]
    obtain h where "anim_pending_for (RevealShow el) (snd (reveal_entries now (Suc i) rest ?st)) =
        anim_pending_for (RevealShow el) (snd ?st) @
          [\<lparr>handle = h, due = now + timer_delay ((Suc i + index_of (el, True) rest) * 100),
            callback = RevealShow el\<rparr>]"
      by blast
    moreover have "anim_pending_for (RevealShow el) (snd ?st) =
        anim_pending_for (RevealShow el) (snd st)"
      using False by (cases entry) (auto simp add: anim_pending_for_setTimeout)
    moreover have "reveal_entries now i (entry # rest) st = reveal_entries now (Suc i) rest ?st"
      by simp
    moreover have "index_of (el, True) (entry # rest) = Suc (index_of (el, True) rest)"
      using False by simp
    ultimately show ?thesis
      by simp
  qed
qed

lemma stagger_cards_pending:
  "c \<notin> StaggerShow ` set cs \<Longrightarrow> anim_pending_for c (stagger_cards now i cs q) = anim_pending_for c q"
  by (induction cs arbitrary: i q) (auto simp add: anim_pending_for_setTimeout)

lemma product_entries_frame:
  "styles (fst (product_entries pg now es st)) = styles (fst st) \<and>
   revealed_log (fst (product_entries pg now es st)) = revealed_log (fst st) \<and>
   reveal_targets (fst (product_entries pg now es st)) = reveal_targets (fst st) \<and>
   (c \<notin> StaggerShow ` set (productCards pg) \<longrightarrow>
      anim_pending_for c (snd (product_entries pg now es st)) = anim_pending_for c (snd st))"
  by (induction es arbitrary: st) (simp_all add: stagger_cards_pending)

lemma product_entries_none:
  "\<not> list_ex snd es \<Longrightarrow> product_entries pg now es st = st"
  by (induction es arbitrary: st) simp_all

lemma delivered_cong: "set ts = set ts' \<Longrightarrow> delivered ts changes = delivered ts' changes"
  by (simp add: delivered_def)

lemma count_delivered: "count_list (delivered ts changes) x \<le> count_list changes x"
  unfolding delivered_def by (induction changes) auto

lemma handler_product:
  "watching el st \<Longrightarrow> watching el (anim_handler pg now (ProductNotify changes) st)"
  "scheduled el d st \<Longrightarrow> scheduled el d (anim_handler pg now (ProductNotify changes) st)"
  "shown el st \<Longrightarrow> shown el (anim_handler pg now (ProductNotify changes) st)"
  "reveal_targets (fst (anim_handler pg now (ProductNotify changes) st)) = reveal_targets (fst st)"
proof -
  have "RevealShow el \<notin> StaggerShow ` set (productCards pg)"
    by auto
  then have frame: "anim_pending_for (RevealShow el) (snd (product_entries pg now es st)) =
      anim_pending_for (RevealShow el) (snd st)" for es
    using product_entries_frame [of pg now es st "RevealShow el"] by simp
  show "watching el st \<Longrightarrow> watching el (anim_handler pg now (ProductNotify changes) st)"
    by (simp add: watching_def anim_handler_def product_entries_frame frame)
  show "scheduled el d st \<Longrightarrow> scheduled el d (anim_handler pg now (ProductNotify changes) st)"
    by (simp add: scheduled_def anim_handler_def product_entries_frame frame)
  show "shown el st \<Longrightarrow> shown el (anim_handler pg now (ProductNotify changes) st)"
    by (simp add: shown_def anim_handler_def product_entries_frame frame)
  show "reveal_targets (fst (anim_handler pg now (ProductNotify changes) st)) =
      reveal_targets (fst st)"
    by (simp add: anim_handler_def product_entries_frame)
qed

lemma handler_reveal_first:
  assumes "watching el st" and "set (reveal_targets (fst st)) = set targets"
    and "count_list changes (el, True) \<le> 1"
    and "(el, True) \<in> set (delivered targets changes)"
  shows "scheduled el (now + timer_delay (index_of (el, True) (delivered targets changes) * 100))
           (anim_handler pg now (RevealNotify changes) st)"
proof -
  let ?es = "delivered targets changes"
  have es: "delivered (reveal_targets (fst st)) changes = ?es"
    using assms(2) by (rule delivered_cong)
  have "count_list ?es (el, True) \<le> 1"
    using count_delivered [of targets changes "(el, True)"] assms(3) by simp
  from reveal_entries_pending_exact [OF assms(4) this, of now 0 st]
  obtain h where "anim_pending_for (RevealShow el) (snd (reveal_entries now 0 ?es st)) =
      anim_pending_for (RevealShow el) (snd st) @
        [\<lparr>handle = h, due = now + timer_delay (index_of (el, True) ?es * 100),
          callback = RevealShow el\<rparr>]"
    by auto
  with assms(1,4) show ?thesis
    by (simp add: scheduled_def watching_def anim_handler_def es reveal_entries_frame
        reveal_entries_targets)
qed

lemma handler_reveal_not_yet:
  assumes "watching el st" and "set (reveal_targets (fst st)) = set targets"
    and "(el, True) \<notin> set (delivered targets changes)"
  shows "watching el (anim_handler pg now (RevealNotify changes) st)"
    and "set (reveal_targets (fst (anim_handler pg now (RevealNotify changes) st))) =
           set (still_observed (delivered targets changes) targets)"
proof -
  have es: "delivered (reveal_targets (fst st)) changes = delivered targets changes"
    using assms(2) by (rule delivered_cong)
  show "watching el (anim_handler pg now (RevealNotify changes) st)"
    using assms(1,3)
    by (simp add: watching_def anim_handler_def es reveal_entries_frame reveal_entries_targets
        reveal_entries_pending_absent)
  show "set (reveal_targets (fst (anim_handler pg now (RevealNotify changes) st))) =
      set (still_observed (delivered targets changes) targets)"
    using assms(2)
    by (auto simp add: anim_handler_def es reveal_entries_targets still_observed_def)
qed

lemma handler_reveal_later:
  assumes "el \<notin> set (reveal_targets (fst st))"
  shows "scheduled el d st \<Longrightarrow> scheduled el d (anim_handler pg now (RevealNotify changes) st)"
    and "shown el st \<Longrightarrow> shown el (anim_handler pg now (RevealNotify changes) st)"
proof -
  let ?es = "delivered (reveal_targets (fst st)) changes"
  from assms have "(el, True) \<notin> set ?es"
    by (auto simp add: delivered_def)
  then have frame: "anim_pending_for (RevealShow el) (snd (reveal_entries now 0 ?es st)) =
      anim_pending_for (RevealShow el) (snd st)"
    by (rule reveal_entries_pending_absent)
  show "scheduled el d st \<Longrightarrow> scheduled el d (anim_handler pg now (RevealNotify changes) st)"
    by (simp add: scheduled_def anim_handler_def reveal_entries_frame reveal_entries_targets frame)
  show "shown el st \<Longrightarrow> shown el (anim_handler pg now (RevealNotify changes) st)"
    by (simp add: shown_def anim_handler_def reveal_entries_frame reveal_entries_targets frame)
qed

lemma handler_reveal_set:
  assumes "reveal_set el d T st"
  shows "reveal_set el d T (anim_handler pg now ev st)"
proof (cases ev)
  case (RevealNotify changes)
  from assms have "el \<notin> set (reveal_targets (fst st))"
    by (auto simp add: reveal_set_def scheduled_def shown_def)
  from handler_reveal_later [OF this] assms show ?thesis
    by (auto simp add: reveal_set_def RevealNotify)
next
  case (ProductNotify changes)
  from assms show ?thesis
    by (auto simp add: reveal_set_def ProductNotify handler_product)
qed

lemma handler_unstaggered:
  assumes "unstaggered pg el st" and "el \<notin> set (productCards pg) \<or> \<not> product_intersects ev"
  shows "unstaggered pg el (anim_handler pg now ev st)"
proof (cases ev)
  case (RevealNotify changes)
  with assms(1) show ?thesis
    by (simp add: unstaggered_def anim_handler_def reveal_entries_frame)
next
  case (ProductNotify changes)
  show ?thesis
  proof (cases "el \<in> set (productCards pg)")
    case True
    with assms(2) have "\<not> list_ex snd changes"
      by (simp add: ProductNotify product_intersects_def)
    then have "\<not> list_ex snd (delivered (product_targets (fst st)) changes)"
      by (auto simp add: delivered_def list_ex_iff)
    with assms(1) show ?thesis
      by (simp add: ProductNotify anim_handler_def product_entries_none)
  next
    case False
    then have "StaggerShow el \<notin> StaggerShow ` set (productCards pg)"
      by auto
    with assms(1) show ?thesis
      using product_entries_frame [of pg now _ st "StaggerShow el"]
      by (simp add: unstaggered_def ProductNotify anim_handler_def product_entries_frame)
  qed
qed

subsection \<open>The timer callbacks\<close>

lemma anim_exec_RevealShow:
  "callback x = RevealShow e \<Longrightarrow>
   anim_exec x (p, q) =
     (p\<lparr>styles := (styles p)(e :=
           (styles p e)\<lparr>opacity := js ''1'', transform := js ''translateY(0)''\<rparr>),
        revealed_log := revealed_log p @ [e]\<rparr>, q)"
  by simp

lemma anim_exec_StaggerShow:
  "callback x = StaggerShow e \<Longrightarrow>
   anim_exec x (p, q) =
     (p\<lparr>styles := (styles p)(e :=
           (styles p e)\<lparr>opacity := js ''1'', transform := js ''translateY(0) scale(1)''\<rparr>)\<rparr>, q)"
  by simp

declare anim_exec.simps [simp del]

lemma anim_pending_for_pop: "anim_pending_for c (pop_timer x q) = remove1 x (anim_pending_for c q)"
  by (simp add: anim_pending_for_def pop_timer_def filter_remove1)

lemma in_anim_pending_for:
  "x \<in> set (anim_pending_for c q) \<longleftrightarrow> x \<in> set (pending q) \<and> callback x = c"
  by (auto simp add: anim_pending_for_def)

lemma anim_pending_for_pop_other:
  "callback x \<noteq> c \<Longrightarrow> anim_pending_for c (pop_timer x q) = anim_pending_for c q"
  by (simp add: anim_pending_for_pop remove1_idem in_anim_pending_for)

lemma anim_pending_single: "length xs = 1 \<Longrightarrow> x \<in> set xs \<Longrightarrow> remove1 x xs = []"
  by (cases xs) auto

lemma anim_fire_frame:
  "reveal_targets (fst (anim_exec x (p, pop_timer x q))) = reveal_targets p \<and>
   snd (anim_exec x (p, pop_timer x q)) = pop_timer x q"
  by (cases "callback x") (simp_all add: anim_exec_RevealShow anim_exec_StaggerShow)

lemma anim_fire_other:
  assumes "callback x \<noteq> RevealShow el" and "callback x \<noteq> StaggerShow el"
  shows "styles (fst (anim_exec x (p, pop_timer x q))) el = styles p el \<and>
         count_list (revealed_log (fst (anim_exec x (p, pop_timer x q)))) el =
           count_list (revealed_log p) el"
proof (cases "callback x")
  case (RevealShow e)
  with assms show ?thesis
    by (simp add: anim_exec_RevealShow)
next
  case (StaggerShow e)
  with assms show ?thesis
    by (simp add: anim_exec_StaggerShow)
qed

lemma anim_fire_stagger:
  assumes "callback x = StaggerShow el"
  shows "opacity (styles (fst (anim_exec x (p, pop_timer x q))) el) = js ''1'' \<and>
         transform (styles (fst (anim_exec x (p, pop_timer x q))) el) =
           js ''translateY(0) scale(1)'' \<and>
         revealed_log (fst (anim_exec x (p, pop_timer x q))) = revealed_log p"
  using assms by (simp add: anim_exec_StaggerShow)

lemma anim_fire_reveal:
  assumes "callback x = RevealShow el"
  shows "opacity (styles (fst (anim_exec x (p, pop_timer x q))) el) = js ''1'' \<and>
         transform (styles (fst (anim_exec x (p, pop_timer x q))) el) = js ''translateY(0)'' \<and>
         count_list (revealed_log (fst (anim_exec x (p, pop_timer x q)))) el =
           Suc (count_list (revealed_log p) el)"
  using assms by (simp add: anim_exec_RevealShow)

lemma anim_fire_watching:
  assumes "watching el s" and "x \<in> set (pending (snd s))"
  shows "watching el (anim_exec x (fst s, pop_timer x (snd s)))"
proof -
  from assms have no: "callback x \<noteq> RevealShow el"
    by (auto simp add: watching_def anim_pending_for_def filter_empty_conv)
  have "count_list (revealed_log (fst (anim_exec x (fst s, pop_timer x (snd s))))) el =
      count_list (revealed_log (fst s)) el"
  proof (cases "callback x = StaggerShow el")
    case True
    then show ?thesis by (simp add: anim_fire_stagger)
  next
    case False
    with no show ?thesis by (simp add: anim_fire_other)
  qed
  with assms(1) no show ?thesis
    by (simp add: watching_def anim_fire_frame anim_pending_for_pop_other)
qed

lemma anim_fire_shown:
  assumes "shown el s" and "x \<in> set (pending (snd s))"
  shows "shown el (anim_exec x (fst s, pop_timer x (snd s)))"
proof -
  from assms have no: "callback x \<noteq> RevealShow el"
    by (auto simp add: shown_def anim_pending_for_def filter_empty_conv)
  show ?thesis
  proof (cases "callback x = StaggerShow el")
    case True
    with assms(1) no show ?thesis
      by (simp add: shown_def anim_fire_frame anim_pending_for_pop_other anim_fire_stagger)
  next
    case False
    with assms(1) no show ?thesis
      by (simp add: shown_def anim_fire_frame anim_pending_for_pop_other anim_fire_other)
  qed
qed

lemma anim_fire_scheduled:
  assumes "scheduled el d s" and "x \<in> set (pending (snd s))"
  shows "scheduled el d (anim_exec x (fst s, pop_timer x (snd s))) \<or>
         (shown el (anim_exec x (fst s, pop_timer x (snd s))) \<and> due x = d)"
proof (cases "callback x = RevealShow el")
  case True
  with assms(2) have mem: "x \<in> set (anim_pending_for (RevealShow el) (snd s))"
    by (simp add: in_anim_pending_for)
  with assms(1) have "remove1 x (anim_pending_for (RevealShow el) (snd s)) = []"
    by (simp add: scheduled_def anim_pending_single)
  moreover from mem assms(1) have "due x = d"
    by (simp add: scheduled_def list_all_iff)
  ultimately have "shown el (anim_exec x (fst s, pop_timer x (snd s))) \<and> due x = d"
    using assms(1) True
    by (simp add: shown_def scheduled_def anim_fire_frame anim_pending_for_pop anim_fire_reveal)
  then show ?thesis ..
next
  case False
  have "count_list (revealed_log (fst (anim_exec x (fst s, pop_timer x (snd s))))) el =
      count_list (revealed_log (fst s)) el"
  proof (cases "callback x = StaggerShow el")
    case True
    then show ?thesis by (simp add: anim_fire_stagger)
  next
    case no: False
    with False show ?thesis by (simp add: anim_fire_other)
  qed
  with assms(1) False have "scheduled el d (anim_exec x (fst s, pop_timer x (snd s)))"
    by (simp add: scheduled_def anim_fire_frame anim_pending_for_pop_other)
  then show ?thesis ..
qed

lemma anim_fire_reveal_set:
  assumes "reveal_set el d T s" and "x \<in> set (pending (snd s))" and "due x \<le> T"
  shows "reveal_set el d T (anim_exec x (fst s, pop_timer x (snd s)))"
  using assms anim_fire_scheduled [of el d s x] anim_fire_shown [of el s x]
  by (auto simp add: reveal_set_def)

lemma anim_fire_unstaggered:
  assumes "unstaggered pg el s" and "x \<in> set (pending (snd s))"
  shows "unstaggered pg el (anim_exec x (fst s, pop_timer x (snd s)))"
proof -
  from assms have no: "callback x \<noteq> StaggerShow el"
    by (auto simp add: unstaggered_def anim_pending_for_def filter_empty_conv)
  show ?thesis
  proof (cases "callback x = RevealShow el")
    case True
    with assms(1) no show ?thesis
      by (simp add: unstaggered_def anim_fire_frame anim_pending_for_pop_other anim_fire_reveal)
  next
    case False
    with assms(1) no show ?thesis
      by (simp add: unstaggered_def anim_fire_frame anim_pending_for_pop_other anim_fire_other)
  qed
qed

lemma anim_fire_measure:
  assumes "x \<in> set (pending (snd s))"
  shows "anim_measure (anim_exec x (fst s, pop_timer x (snd s))) < anim_measure s"
proof -
  have "length (remove1 x (pending (snd s))) < length (pending (snd s))"
    using assms length_pos_if_in_set [of x "pending (snd s)"] by (simp add: length_remove1)
  moreover have "snd (anim_exec x (fst s, pop_timer x (snd s))) = pop_timer x (snd s)"
    by (simp add: anim_fire_frame)
  ultimately show ?thesis
    by (simp add: anim_measure_def pop_timer_def)
qed

subsection \<open>Whole sessions\<close>

lemma reach_watching:
  assumes "watching el st"
  shows "\<exists>st1. reach anim_exec t ties st = Some st1 \<and> watching el st1 \<and>
           reveal_targets (fst st1) = reveal_targets (fst st)"
proof -
  have "\<exists>st1. reach anim_exec t ties st = Some st1 \<and>
      (watching el st1 \<and> reveal_targets (fst st1) = reveal_targets (fst st))"
  proof (rule reach_rule [where m = anim_measure])
    show "watching el st \<and> reveal_targets (fst st) = reveal_targets (fst st)"
      using assms by simp
  next
    fix s x
    assume "watching el s \<and> reveal_targets (fst s) = reveal_targets (fst st)"
      and "x \<in> set (pending (snd s))"
    then show "(watching el (anim_exec x (fst s, pop_timer x (snd s))) \<and>
        reveal_targets (fst (anim_exec x (fst s, pop_timer x (snd s)))) =
          reveal_targets (fst st)) \<and>
        anim_measure (anim_exec x (fst s, pop_timer x (snd s))) < anim_measure s"
      by (simp add: anim_fire_watching anim_fire_measure anim_fire_frame)
  qed
  then show ?thesis by simp
qed

lemma later_reveal_set:
  assumes "reveal_set el d T st" and "list_all (\<lambda>t. t \<le> T) (task_times calls)"
  shows "\<exists>st'. run_calls anim_exec (anim_handler pg) now calls st = Some st' \<and>
           reveal_set el d T st'"
  using assms(1)
proof (rule run_calls_rule [where m = anim_measure])
  fix t s x
  assume "t \<in> set (task_times calls)" and "reveal_set el d T s"
    and "x \<in> set (pending (snd s))" and "due x \<le> t"
  moreover from this assms(2) have "due x \<le> T"
    by (auto simp add: list_all_iff)
  ultimately show "reveal_set el d T (anim_exec x (fst s, pop_timer x (snd s))) \<and>
      anim_measure (anim_exec x (fst s, pop_timer x (snd s))) < anim_measure s"
    by (simp add: anim_fire_reveal_set anim_fire_measure)
next
  fix t ev s
  assume "reveal_set el d T s"
  then show "reveal_set el d T (anim_handler pg t ev s)"
    by (rule handler_reveal_set)
qed

lemma session_unstaggered:
  assumes "unstaggered pg el st"
    and "el \<notin> set (productCards pg) \<or> \<not> list_ex (\<lambda>e. product_intersects (snd e)) (timed now calls)"
  shows "\<exists>st'. run_calls anim_exec (anim_handler pg) now calls st = Some st' \<and>
           unstaggered pg el st'"
  using assms(1)
proof (rule run_calls_rule [where m = anim_measure])
  fix t s x
  assume "unstaggered pg el s" and "x \<in> set (pending (snd s))"
  then show "unstaggered pg el (anim_exec x (fst s, pop_timer x (snd s))) \<and>
      anim_measure (anim_exec x (fst s, pop_timer x (snd s))) < anim_measure s"
    by (simp add: anim_fire_unstaggered anim_fire_measure)
next
  fix t ev s
  assume "(t, ev) \<in> set (timed now calls)" and "unstaggered pg el s"
  moreover from this assms(2) have "el \<notin> set (productCards pg) \<or> \<not> product_intersects ev"
    by (auto simp add: list_ex_iff)
  ultimately show "unstaggered pg el (anim_handler pg t ev s)"
    by (simp add: handler_unstaggered)
qed

lemma session_reveal:
  assumes "list_all (\<lambda>e. intersects_once el (snd e)) (timed now calls)"
    and "list_all (\<lambda>t. t \<le> T) (task_times calls)"
    and "watching el st" and "set (reveal_targets (fst st)) = set targets"
  shows "\<exists>st'. run_calls anim_exec (anim_handler pg) now calls st = Some st' \<and>
           (case reveal_due el targets (timed now calls) of
              None \<Rightarrow> watching el st'
            | Some d \<Rightarrow> reveal_set el d T st')"
  using assms
proof (induction calls arbitrary: now st targets)
  case Nil
  then show ?case by simp
next
  case (Cons c calls)
  have step: "\<exists>st'. run_calls anim_exec (anim_handler pg) u calls (anim_handler pg u ev s1) =
        Some st' \<and>
      (case reveal_due el targets ((u, ev) # timed u calls) of
         None \<Rightarrow> watching el st'
       | Some d \<Rightarrow> reveal_set el d T st')"
    if s1: "watching el s1" "set (reveal_targets (fst s1)) = set targets"
      and once: "intersects_once el ev"
      and rest: "list_all (\<lambda>e. intersects_once el (snd e)) (timed u calls)"
        "list_all (\<lambda>t. t \<le> T) (task_times calls)"
    for u ev s1
  proof (cases ev)
    case (RevealNotify changes)
    from once have count: "count_list changes (el, True) \<le> 1"
      by (simp add: intersects_once_def RevealNotify)
    show ?thesis
    proof (cases "(el, True) \<in> set (delivered targets changes)")
      case True
      let ?d = "u + timer_delay (index_of (el, True) (delivered targets changes) * 100)"
      from handler_reveal_first [OF s1 count True]
      have "reveal_set el ?d T (anim_handler pg u ev s1)"
        by (simp add: reveal_set_def RevealNotify)
      from later_reveal_set [OF this rest(2)] True show ?thesis
        by (simp add: RevealNotify)
    next
      case False
      from handler_reveal_not_yet [OF s1 False]
      have "watching el (anim_handler pg u ev s1)"
        and "set (reveal_targets (fst (anim_handler pg u ev s1))) =
          set (still_observed (delivered targets changes) targets)"
        by (simp_all add: RevealNotify)
      from Cons.IH [OF rest this] False show ?thesis
        by (simp add: RevealNotify)
    qed
  next
    case (ProductNotify changes)
    from s1 have "watching el (anim_handler pg u ev s1)"
      and "set (reveal_targets (fst (anim_handler pg u ev s1))) = set targets"
      by (simp_all add: ProductNotify handler_product)
    from Cons.IH [OF rest this] show ?thesis
      by (simp add: ProductNotify)
  qed
  show ?case
  proof (cases c)
    case (NewTask t ties ev)
    from reach_watching [OF Cons.prems(3)]
    obtain st1 where st1: "reach anim_exec t ties st = Some st1" "watching el st1"
      "reveal_targets (fst st1) = reveal_targets (fst st)"
      by blast
    from Cons.prems(1,2) have "intersects_once el ev"
      and "list_all (\<lambda>e. intersects_once el (snd e)) (timed t calls)"
      and "list_all (\<lambda>t. t \<le> T) (task_times calls)"
      by (simp_all add: NewTask)
    from step [OF st1(2) _ this] st1(3) Cons.prems(4) show ?thesis
      by (simp add: NewTask st1(1))
  next
    case (SameTask ev)
    from Cons.prems(1,2) have "intersects_once el ev"
      and "list_all (\<lambda>e. intersects_once el (snd e)) (timed now calls)"
      and "list_all (\<lambda>t. t \<le> T) (task_times calls)"
      by (simp_all add: SameTask)
    from step [OF Cons.prems(3,4) this] show ?thesis
      by (simp add: SameTask)
  qed
qed

lemma reveal_due_None_iff:
  "el \<in> set targets \<Longrightarrow>
   reveal_due el targets evs = None \<longleftrightarrow> \<not> list_ex (\<lambda>e. reports el (snd e)) evs"
proof (induction el targets evs rule: reveal_due.induct)
  case (1 el targets)
  then show ?case by simp
next
  case (2 el targets t changes rest)
  have mem: "(el, True) \<in> set (delivered targets changes) \<longleftrightarrow> (el, True) \<in> set changes"
    using "2.prems" by (auto simp add: delivered_def)
  show ?case
  proof (cases "(el, True) \<in> set changes")
    case True
    with mem show ?thesis
      by (simp add: reports_def)
  next
    case False
    with mem have no: "(el, True) \<notin> set (delivered targets changes)"
      by simp
    with "2.prems" have "el \<in> set (still_observed (delivered targets changes) targets)"
      by (simp add: still_observed_def)
    from "2.IH" [OF no this] no False show ?thesis
      by (simp add: reports_def)
  qed
next
  case (3 el targets t changes rest)
  then show ?case
    by (simp add: reports_def)
qed

lemma final_reveal:
  assumes "case r of None \<Rightarrow> watching el st | Some d \<Rightarrow> reveal_set el d T st"
  shows "\<exists>st'. run_timers anim_exec T st = Some st' \<and>
           (case r of
              None \<Rightarrow> watching el st'
            | Some d \<Rightarrow> if d \<le> T then shown el st' else scheduled el d st')"
proof -
  let ?I = "\<lambda>s. case r of None \<Rightarrow> watching el s | Some d \<Rightarrow> reveal_set el d T s"
  have "\<exists>st'. run_timers anim_exec T st = Some st' \<and> ?I st' \<and>
      (\<forall>x\<in>set (pending (snd st')). T < due x)"
  proof (rule run_timers_rule [where m = anim_measure])
    show "?I st" by (rule assms)
  next
    fix s x
    assume "?I s" and "x \<in> set (pending (snd s))" and "due x \<le> T"
    then show "?I (anim_exec x (fst s, pop_timer x (snd s))) \<and>
        anim_measure (anim_exec x (fst s, pop_timer x (snd s))) < anim_measure s"
      by (simp add: anim_fire_watching anim_fire_reveal_set anim_fire_measure
          split: option.splits)
  qed
  then obtain st' where st': "run_timers anim_exec T st = Some st'" "?I st'"
    "\<forall>x\<in>set (pending (snd st')). T < due x"
    by blast
  have "T < d" if "scheduled el d st'" for d
  proof -
    from that obtain x where "anim_pending_for (RevealShow el) (snd st') = [x]"
      by (auto simp add: scheduled_def length_Suc_conv)
    with that have "x \<in> set (pending (snd st'))" and "due x = d"
      using in_anim_pending_for [of x "RevealShow el" "snd st'"]
      by (simp_all add: scheduled_def)
    with st'(3) show ?thesis by auto
  qed
  then have "\<not> scheduled el d st'" if "d \<le> T" for d
    using that by (auto simp add: not_less [symmetric])
  with st'(2) have "case r of None \<Rightarrow> watching el st'
      | Some d \<Rightarrow> if d \<le> T then shown el st' else scheduled el d st'"
    by (auto simp add: reveal_set_def split: option.splits)
  with st'(1) show ?thesis by simp
qed

lemma final_unstaggered:
  assumes "unstaggered pg el st"
  shows "\<exists>st'. run_timers anim_exec T st = Some st' \<and> unstaggered pg el st'"
proof -
  have "\<exists>st'. run_timers anim_exec T st = Some st' \<and> unstaggered pg el st' \<and>
      (\<forall>x\<in>set (pending (snd st')). T < due x)"
    using assms
  proof (rule run_timers_rule [where m = anim_measure])
    fix s x
    assume "unstaggered pg el s" and "x \<in> set (pending (snd s))"
    then show "unstaggered pg el (anim_exec x (fst s, pop_timer x (snd s))) \<and>
        anim_measure (anim_exec x (fst s, pop_timer x (snd s))) < anim_measure s"
      by (simp add: anim_fire_unstaggered anim_fire_measure)
  qed
  then show ?thesis by blast
qed

text \<open>
  Claim C3, as the code has it, for every element watched by the scroll-reveal
  controller, product cards included. Scroll reveal is enabled, no batch of changes
  reports the element as intersecting more than once, and the session is looked at at a
  time \<open>T\<close> that no task of the trace comes after. The session ends, and:

  \<^item> \<open>reveal_due\<close> gives no time exactly when the observer has not reported the element as
    intersecting. The element is then \<open>watching\<close>: still observed, its reveal neither
    set nor run.

  \<^item> Otherwise \<open>reveal_due\<close> gives the time \<open>d\<close>: the time of the first batch that reports
    the element as intersecting, plus the delay \<open>index * 100\<close> ms as the platform reads
    it, \<open>index\<close> being the position of the element's entry in that batch. The element is
    no longer observed. Before \<open>d\<close> it is \<open>scheduled\<close>: exactly one reveal timer is
    pending, due at \<open>d\<close>, and no reveal has run. From \<open>d\<close> on it is \<open>shown\<close>: its reveal
    has run exactly once, none is pending, its opacity is 1 and its transform has a zero
    \<open>translateY\<close>. Later reports of the element change nothing.

  \<^item> An element that is no product card, or any element as long as the product observer
    has reported no intersection, is \<open>unstaggered\<close>: until its reveal has run it has the
    style that \<open>Animations.init\<close> gave it, opacity 0 and translated; afterwards it has
    opacity 1 and the transform \<open>translateY(0)\<close>.
\<close>

theorem scroll_reveal_once:
  assumes "scrollReveal_enabled cfg" and "el \<in> set (revealElements pg)"
    and "list_all (\<lambda>e. intersects_once el (snd e)) (timed 0 calls)"
    and "list_all (\<lambda>t. t \<le> T) (task_times calls)"
  shows "\<exists>st. anim_session cfg pg styles0 calls T = Some st \<and>
           (reveal_due el (revealElements pg) (timed 0 calls) = None \<longleftrightarrow>
              \<not> reported el calls) \<and>
           (case reveal_due el (revealElements pg) (timed 0 calls) of
              None \<Rightarrow> watching el st
            | Some d \<Rightarrow> if d \<le> T then shown el st else scheduled el d st) \<and>
           (el \<notin> set (productCards pg) \<or> \<not> stagger_started calls \<longrightarrow>
              unstaggered pg el st)"
proof -
  let ?st0 = "anim_start cfg pg styles0"
  let ?r = "reveal_due el (revealElements pg) (timed 0 calls)"
  note start = anim_start_facts [OF assms(1,2), of styles0]
  from session_reveal [OF assms(3,4) start(1,2)] obtain st1
    where st1: "run_calls anim_exec (anim_handler pg) 0 calls ?st0 = Some st1"
      "case ?r of None \<Rightarrow> watching el st1 | Some d \<Rightarrow> reveal_set el d T st1"
    by blast
  from final_reveal [OF st1(2)] obtain st
    where st: "run_timers anim_exec T st1 = Some st"
      "case ?r of None \<Rightarrow> watching el st
       | Some d \<Rightarrow> if d \<le> T then shown el st else scheduled el d st"
    by blast
  have session: "anim_session cfg pg styles0 calls T = Some st"
    by (simp add: anim_session_def st1(1) st(1))
  have iff: "?r = None \<longleftrightarrow> \<not> reported el calls"
    unfolding reported_def using assms(2) by (rule reveal_due_None_iff)
  have "unstaggered pg el st" if "el \<notin> set (productCards pg) \<or> \<not> stagger_started calls"
  proof -
    from that have "el \<notin> set (productCards pg) \<or>
        \<not> list_ex (\<lambda>e. product_intersects (snd e)) (timed 0 calls)"
      by (simp add: stagger_started_def)
    from session_unstaggered [OF start(3) this] st1(1) have "unstaggered pg el st1"
      by simp
    from final_unstaggered [OF this, of T] st(1) show ?thesis
      by simp
  qed
  with session iff st(2) show ?thesis
    by simp
qed

theorem scroll_reveal_once_witness:
  "scrollReveal_enabled CONFIG \<and> 0 \<in> set (revealElements two_card_page) \<and>
   list_all (\<lambda>e. intersects_once 0 (snd e))
     (timed 0 [NewTask 0 True (RevealNotify [(0, False), (1, False)]),
               NewTask 500 True (RevealNotify [(1, False), (0, True)]),
               NewTask 900 True (RevealNotify [(0, True)])]) \<and>
   list_all (\<lambda>t. t \<le> 1200)
     (task_times [NewTask 0 True (RevealNotify [(0, False), (1, False)]),
                  NewTask 500 True (RevealNotify [(1, False), (0, True)]),
                  NewTask 900 True (RevealNotify [(0, True)])]) \<and>
   reveal_due 0 (revealElements two_card_page)
     (timed 0 [NewTask 0 True (RevealNotify [(0, False), (1, False)]),
               NewTask 500 True (RevealNotify [(1, False), (0, True)]),
               NewTask 900 True (RevealNotify [(0, True)])]) = Some 600 \<and>
   (\<exists>st. anim_session CONFIG two_card_page no_inline_style
            [NewTask 0 True (RevealNotify [(0, False), (1, False)]),
             NewTask 500 True (RevealNotify [(1, False), (0, True)]),
             NewTask 900 True (RevealNotify [(0, True)])] 1200 = Some st \<and>
      shown 0 st \<and> unstaggered two_card_page 0 st) \<and>
   (\<exists>st. anim_session CONFIG two_card_page no_inline_style
            [NewTask 0 True (RevealNotify [(0, False), (1, False)]),
             NewTask 500 True (RevealNotify [(1, False), (0, True)])] 599 = Some st \<and>
      scheduled 0 600 st \<and> unstaggered two_card_page 0 st)"
proof -
  let ?first = "[NewTask 0 True (RevealNotify [(0, False), (1, False)]),
      NewTask 500 True (RevealNotify [(1, False), (0, True)])]"
  let ?calls = "[NewTask 0 True (RevealNotify [(0, False), (1, False)]),
      NewTask 500 True (RevealNotify [(1, False), (0, True)]),
      NewTask 900 True (RevealNotify [(0, True)])]"
  have page: "scrollReveal_enabled CONFIG" "0 \<in> set (revealElements two_card_page)"
    "0 \<notin> set (productCards two_card_page)"
    by (simp_all add: CONFIG_def two_card_page_def)
  have calls: "list_all (\<lambda>e. intersects_once 0 (snd e)) (timed 0 ?calls)"
    "list_all (\<lambda>t. t \<le> 1200) (task_times ?calls)"
    "list_all (\<lambda>e. intersects_once 0 (snd e)) (timed 0 ?first)"
    "list_all (\<lambda>t. t \<le> 599) (task_times ?first)"
    by (simp_all add: intersects_once_def)
  have due: "reveal_due 0 (revealElements two_card_page) (timed 0 ?calls) = Some 600"
    "reveal_due 0 (revealElements two_card_page) (timed 0 ?first) = Some 600"
    by (simp_all add: two_card_page_def delivered_def still_observed_def timer_delay_def)
  from scroll_reveal_once [OF page(1,2) calls(1,2), of no_inline_style] page(3)
  have late: "\<exists>st. anim_session CONFIG two_card_page no_inline_style ?calls 1200 = Some st \<and>
      shown 0 st \<and> unstaggered two_card_page 0 st"
    unfolding due by auto
  from scroll_reveal_once [OF page(1,2) calls(3,4), of no_inline_style] page(3)
  have early: "\<exists>st. anim_session CONFIG two_card_page no_inline_style ?first 599 = Some st \<and>
      scheduled 0 600 st \<and> unstaggered two_card_page 0 st"
    unfolding due by auto
  from page(1,2) calls(1,2) due(1) late early show ?thesis
    by blast
qed

text \<open>
  The claim as worded fails for a product card, which is a watched element too. When
  the products section is reported as intersecting, the product stagger reveals the card
  although the scroll-reveal observer has never reported the card itself.
\<close>

theorem scroll_reveal_counterexample:
  "1 \<in> set (revealElements two_card_page) \<and>
   \<not> reported 1 [NewTask 0 True (RevealNotify [(0, False), (1, False)]),
                 SameTask (ProductNotify [(9, False)]),
                 NewTask 400 True (ProductNotify [(9, True)])] \<and>
   style_after CONFIG two_card_page no_inline_style
     [NewTask 0 True (RevealNotify [(0, False), (1, False)]),
      SameTask (ProductNotify [(9, False)]),
      NewTask 400 True (ProductNotify [(9, True)])] 400 1 =
     Some \<lparr>opacity = js ''1'', transform = js ''translateY(0) scale(1)'',
           transition = js ''all 0.6s cubic-bezier(0.4, 0, 0.2, 1)''\<rparr>"
  by (simp add: reported_def reports_def style_after_def anim_session_def anim_start_def
      Animations_init_def initScrollReveal_def initProductStagger_def reveal_hide_def
      stagger_hide_def observe_def unobserve_def CONFIG_def two_card_page_def
      no_inline_style_def anim_handler_def delivered_def reach_def run_timers.simps
      next_due_def pop_timer_def setTimeout_def timer_delay_def anim_exec.simps)

text \<open>
  Why a batch must not report the element as intersecting twice: the callback sets a
  timer for each such entry before any of them runs, and the reveal then runs twice.
\<close>

lemma reveal_twice_in_one_batch:
  "reveals_after CONFIG two_card_page no_inline_style
     [NewTask 0 True (RevealNotify [(0, True), (0, False), (0, True)])] 200 0 = Some 2"
  by (simp add: reveals_after_def anim_session_def anim_start_def
      Animations_init_def initScrollReveal_def initProductStagger_def reveal_hide_def
      stagger_hide_def observe_def unobserve_def CONFIG_def two_card_page_def
      no_inline_style_def anim_handler_def delivered_def reach_def run_timers.simps
      next_due_def pop_timer_def setTimeout_def timer_delay_def anim_exec.simps)

end
